theory Spec2Isabelle
  imports Main "HOL-Library.Word"
begin

section \<open>The gocache engine: entries, the recency list and snapshot persistence\<close>

text \<open>
  The cache couples a Go map from keys to \<^verbatim>\<open>*Entry\<close> with an intrusive doubly-linked
  list threaded through the entries (\<^verbatim>\<open>previous\<close>/\<^verbatim>\<open>next\<close>), whose ends are
  \<^verbatim>\<open>cache.tail\<close> (oldest) and \<^verbatim>\<open>cache.head\<close> (newest). Entries are shared
  mutable objects, so the model keeps an explicit store from addresses to entries and
  every pointer is an address (\<open>None\<close> is \<^verbatim>\<open>nil\<close>). The mutex and the janitor
  channel are not modelled: every operation is taken as one atomic step.
\<close>

subsection \<open>Constants and errors\<close>

definition NoMaxSize :: int where "NoMaxSize = 0"
definition NoMaxMemoryUsage :: int where "NoMaxMemoryUsage = 0"
definition DefaultMaxSize :: int where "DefaultMaxSize = 100000"
definition NoExpiration :: int where "NoExpiration = - 1"

datatype error =
    ErrKeyDoesNotExist
  | ErrKeyHasNoExpiration
  | ErrJanitorAlreadyRunning
  | ErrIO string

datatype EvictionPolicy = FirstInFirstOut | LeastRecentlyUsed

subsection \<open>Time\<close>

text \<open>
  An instant is its number of nanoseconds since the Unix epoch, as an unbounded integer
  (\<^verbatim>\<open>time.Time\<close> has a far wider range than \<^verbatim>\<open>int64\<close> nanoseconds). A
  \<^verbatim>\<open>time.Duration\<close> and \<^verbatim>\<open>Entry.Expiration\<close> are \<^verbatim>\<open>int64\<close>:
  \<^verbatim>\<open>UnixNano\<close> wraps and \<^verbatim>\<open>Time.Sub\<close> (behind \<^verbatim>\<open>time.Until\<close>) saturates.
\<close>

definition UnixNano :: "int \<Rightarrow> int" where
  "UnixNano t = sint (word_of_int t :: 64 word)"

definition maxDuration :: int where "maxDuration = 2 ^ 63 - 1"
definition minDuration :: int where "minDuration = - (2 ^ 63)"

definition Until :: "int \<Rightarrow> int \<Rightarrow> int" where
  "Until now t = max minDuration (min maxDuration (t - now))"

subsection \<open>Entries\<close>

text \<open>
  The fields of \<^verbatim>\<open>type Entry struct\<close> as the two files use them. The link
  \<^verbatim>\<open>next\<close> is written \<open>nxt\<close>; \<^verbatim>\<open>RelevantTimestamp\<close> is an instant.
\<close>

type_synonym addr = nat

record 'v Entry =
  Key :: string
  Value :: 'v
  RelevantTimestamp :: int
  Expiration :: int
  previous :: "addr option"
  nxt :: "addr option"

text \<open>
  Modelled from the spec: \<^verbatim>\<open>Entry.SizeInBytes\<close>, \<^verbatim>\<open>Entry.Expired\<close> and
  \<^verbatim>\<open>Entry.Accessed\<close> are methods of the repository that the two source files call
  but do not contain. Section 3 of the specification gives the size as a fixed structural
  overhead plus the byte length of the key plus the size of the value; the overhead and
  the \<open>size_of\<close> collaborator are parameters. Section 4.3 gives expiry as
  "expiration is not the sentinel and now \<open>\<ge>\<close> expiration", and an access as
  "relevant timestamp \<open>\<leftarrow>\<close> now".
\<close>

record 'v sizing =
  overhead :: int
  size_of :: "'v \<Rightarrow> int"

definition SizeInBytes :: "'v sizing \<Rightarrow> 'v Entry \<Rightarrow> int" where
  "SizeInBytes S e = overhead S + int (length (Key e)) + size_of S (Value e)"

definition Expired :: "int \<Rightarrow> 'v Entry \<Rightarrow> bool" where
  "Expired now e \<longleftrightarrow> Expiration e \<noteq> NoExpiration \<and> Expiration e \<le> now"

definition Accessed :: "int \<Rightarrow> 'v Entry \<Rightarrow> 'v Entry" where
  "Accessed now e = e\<lparr>RelevantTimestamp := now\<rparr>"

subsection \<open>The cache\<close>

text \<open>
  Modelled from the spec: the \<^verbatim>\<open>Statistics\<close> struct is declared outside the two source
  files; the code increments its fields \<^verbatim>\<open>Hits\<close>, \<^verbatim>\<open>Misses\<close> and
  \<^verbatim>\<open>EvictedKeys\<close>, which the specification calls monotonic counters.
\<close>

record Statistics =
  EvictedKeys :: nat
  Hits :: nat
  Misses :: nat

text \<open>
  \<open>store\<close> is the part of the Go heap that holds the \<^verbatim>\<open>Entry\<close> objects and
  \<open>fresh\<close> the next address the allocator hands out; the other fields are those of
  \<^verbatim>\<open>type Cache struct\<close>.
\<close>

record 'v Cache =
  maxSize :: int
  maxMemoryUsage :: int
  evictionPolicy :: EvictionPolicy
  stats :: Statistics
  entries :: "string \<rightharpoonup> addr"
  head :: "addr option"
  tail :: "addr option"
  memoryUsage :: int
  store :: "addr \<Rightarrow> 'v Entry"
  fresh :: addr

text \<open>\<^verbatim>\<open>len(cache.entries)\<close>.\<close>

definition len :: "'v Cache \<Rightarrow> int" where
  "len c = int (card (dom (entries c)))"

text \<open>\<^verbatim>\<open>NewCache()\<close>, in a heap \<open>h\<close> whose addresses below \<open>n0\<close> are taken.\<close>

definition NewCache :: "(addr \<Rightarrow> 'v Entry) \<Rightarrow> addr \<Rightarrow> 'v Cache" where
  "NewCache h n0 =
     \<lparr>maxSize = DefaultMaxSize, maxMemoryUsage = 0, evictionPolicy = FirstInFirstOut,
      stats = \<lparr>EvictedKeys = 0, Hits = 0, Misses = 0\<rparr>, entries = Map.empty,
      head = None, tail = None, memoryUsage = 0, store = h, fresh = n0\<rparr>"

definition WithMaxSize :: "int \<Rightarrow> 'v Cache \<Rightarrow> 'v Cache" where
  "WithMaxSize n c = c\<lparr>maxSize := (if n < 0 then NoMaxSize else n)\<rparr>"

definition WithMaxMemoryUsage :: "int \<Rightarrow> 'v Cache \<Rightarrow> 'v Cache" where
  "WithMaxMemoryUsage n c = c\<lparr>maxMemoryUsage := (if n < 0 then NoMaxMemoryUsage else n)\<rparr>"

definition WithEvictionPolicy :: "EvictionPolicy \<Rightarrow> 'v Cache \<Rightarrow> 'v Cache" where
  "WithEvictionPolicy p c = c\<lparr>evictionPolicy := p\<rparr>"

text \<open>\<^verbatim>\<open>cache.get(key)\<close>: the entry pointer, or \<open>None\<close> for \<^verbatim>\<open>ok == false\<close>.\<close>

definition get :: "string \<Rightarrow> 'v Cache \<Rightarrow> addr option" where
  "get key c = entries c key"

subsection \<open>List primitives\<close>

text \<open>
  \<^verbatim>\<open>removeExistingEntryReferences\<close>: first the endpoint pointers, then the two
  neighbours, then the entry's own links, each statement reading the store its
  predecessors left.
\<close>

definition removeExistingEntryReferences :: "addr \<Rightarrow> 'v Cache \<Rightarrow> 'v Cache" where
  "removeExistingEntryReferences entry c =
     (let c1 = (if tail c = Some entry \<and> head c = Some entry then c\<lparr>tail := None, head := None\<rparr>
                else if tail c = Some entry then c\<lparr>tail := nxt (store c entry)\<rparr>
                else if head c = Some entry then c\<lparr>head := previous (store c entry)\<rparr>
                else c);
          st1 = store c1;
          st2 = (case previous (st1 entry) of
                   None \<Rightarrow> st1
                 | Some p \<Rightarrow> st1(p := (st1 p)\<lparr>nxt := nxt (st1 entry)\<rparr>));
          st3 = (case nxt (st2 entry) of
                   None \<Rightarrow> st2
                 | Some n \<Rightarrow> st2(n := (st2 n)\<lparr>previous := previous (st2 entry)\<rparr>));
          st4 = st3(entry := (st3 entry)\<lparr>nxt := None, previous := None\<rparr>)
      in c1\<lparr>store := st4\<rparr>)"

definition moveExistingEntryToHead :: "addr \<Rightarrow> 'v Cache \<Rightarrow> 'v Cache" where
  "moveExistingEntryToHead entry c =
     (let c1 = (if \<not> (Some entry = head c \<and> Some entry = tail c)
                then removeExistingEntryReferences entry c else c)
      in if Some entry \<noteq> head c1 then
           (let st1 = (store c1)(entry := (store c1 entry)\<lparr>previous := head c1, nxt := None\<rparr>);
                st2 = (case head c1 of
                         None \<Rightarrow> st1
                       | Some h \<Rightarrow> st1(h := (st1 h)\<lparr>nxt := Some entry\<rparr>))
            in c1\<lparr>store := st2, head := Some entry\<rparr>)
         else c1)"

subsection \<open>Deletion and eviction\<close>

definition delete :: "'v sizing \<Rightarrow> string \<Rightarrow> 'v Cache \<Rightarrow> 'v Cache \<times> bool" where
  "delete S key c =
     (case entries c key of
        None \<Rightarrow> (c, False)
      | Some entry \<Rightarrow>
          (let c1 = (if maxMemoryUsage c \<noteq> NoMaxMemoryUsage
                     then c\<lparr>memoryUsage := memoryUsage c - SizeInBytes S (store c entry)\<rparr>
                     else c);
               c2 = removeExistingEntryReferences entry c1
           in (c2\<lparr>entries := (entries c2)(key := None)\<rparr>, True)))"

definition evict :: "'v sizing \<Rightarrow> 'v Cache \<Rightarrow> 'v Cache" where
  "evict S c =
     (if tail c = None \<or> len c = 0 then c
      else case tail c of
        None \<Rightarrow> c
      | Some oldTail \<Rightarrow>
          (let c1 = removeExistingEntryReferences oldTail c;
               c2 = c1\<lparr>entries := (entries c1)(Key (store c1 oldTail) := None)\<rparr>;
               c3 = (if maxMemoryUsage c2 \<noteq> NoMaxMemoryUsage
                     then c2\<lparr>memoryUsage := memoryUsage c2 - SizeInBytes S (store c2 oldTail)\<rparr>
                     else c2)
           in c3\<lparr>stats := (stats c3)\<lparr>EvictedKeys := EvictedKeys (stats c3) + 1\<rparr>\<rparr>))"

text \<open>
  The two eviction loops. Neither has a variant in an arbitrary state (with
  \<^verbatim>\<open>tail == nil\<close> and a non-empty map \<^verbatim>\<open>evict\<close> changes nothing and the
  loop spins), so they are partial: \<open>None\<close> is "does not return". The counter is
  \<^verbatim>\<open>numberOfEvictions\<close>.
\<close>

partial_function (option) evictWhileOverSize ::
  "'v sizing \<Rightarrow> int \<Rightarrow> 'v Cache \<Rightarrow> (int \<times> 'v Cache) option" where
  "evictWhileOverSize S n c =
     (if len c > maxSize c then evictWhileOverSize S (n + 1) (evict S c) else Some (n, c))"

partial_function (option) evictWhileOverMemory ::
  "'v sizing \<Rightarrow> int \<Rightarrow> 'v Cache \<Rightarrow> (int \<times> 'v Cache) option" where
  "evictWhileOverMemory S n c =
     (if memoryUsage c > maxMemoryUsage c \<and> len c > 0
      then evictWhileOverMemory S (n + 1) (evict S c) else Some (n, c))"

definition Delete :: "'v sizing \<Rightarrow> string \<Rightarrow> 'v Cache \<Rightarrow> 'v Cache \<times> bool" where
  "Delete S key c = delete S key c"

fun DeleteAll :: "'v sizing \<Rightarrow> string list \<Rightarrow> 'v Cache \<Rightarrow> 'v Cache \<times> int" where
  "DeleteAll S [] c = (c, 0)"
| "DeleteAll S (key # keys) c =
     (case delete S key c of
        (c1, ok) \<Rightarrow> (case DeleteAll S keys c1 of
                      (c2, n) \<Rightarrow> (c2, (if ok then 1 else 0) + n)))"

definition Count :: "'v Cache \<Rightarrow> int" where
  "Count c = len c"

definition Clear :: "'v Cache \<Rightarrow> 'v Cache" where
  "Clear c = c\<lparr>entries := Map.empty, memoryUsage := 0, head := None, tail := None\<rparr>"

subsection \<open>Writes\<close>

text \<open>
  \<^verbatim>\<open>SetWithTTL\<close> reads the clock twice: \<open>t0\<close> stamps a new entry, \<open>t1\<close> is the
  instant the expiration is computed from. The result is \<open>None\<close> when the memory loop
  does not return.
\<close>

definition SetWithTTL ::
  "'v sizing \<Rightarrow> int \<Rightarrow> int \<Rightarrow> string \<Rightarrow> 'v \<Rightarrow> int \<Rightarrow> 'v Cache \<Rightarrow> 'v Cache option" where
  "SetWithTTL S t0 t1 key val ttl c =
     (let linked =
        (case get key c of
           None \<Rightarrow>
             if ttl \<noteq> NoExpiration \<and> ttl < 0 then None
             else
               (let entry = fresh c;
                    c1 = c\<lparr>store := (store c)(entry :=
                             \<lparr>Key = key, Value = val, RelevantTimestamp = t0, Expiration = 0,
                              previous = head c, nxt = None\<rparr>),
                           fresh := Suc entry\<rparr>;
                    c2 = (case head c1 of
                            None \<Rightarrow> c1\<lparr>tail := Some entry\<rparr>
                          | Some h \<Rightarrow> c1\<lparr>store := (store c1)(h := (store c1 h)\<lparr>nxt := Some entry\<rparr>)\<rparr>);
                    c3 = c2\<lparr>head := Some entry, entries := (entries c2)(key \<mapsto> entry)\<rparr>;
                    c4 = (if maxMemoryUsage c3 \<noteq> NoMaxMemoryUsage
                          then c3\<lparr>memoryUsage := memoryUsage c3 + SizeInBytes S (store c3 entry)\<rparr>
                          else c3)
                in Some (entry, c4))
         | Some entry \<Rightarrow>
             (let c1 = (if maxMemoryUsage c \<noteq> NoMaxMemoryUsage
                        then c\<lparr>memoryUsage := memoryUsage c - SizeInBytes S (store c entry)\<rparr>
                        else c);
                  c2 = c1\<lparr>store := (store c1)(entry := (store c1 entry)\<lparr>Value := val\<rparr>)\<rparr>;
                  c3 = (if maxMemoryUsage c2 \<noteq> NoMaxMemoryUsage
                        then c2\<lparr>memoryUsage := memoryUsage c2 + SizeInBytes S (store c2 entry)\<rparr>
                        else c2)
              in Some (entry, moveExistingEntryToHead entry c3)))
      in case linked of
           None \<Rightarrow> Some c
         | Some (entry, c4) \<Rightarrow>
             (let c5 = c4\<lparr>store := (store c4)(entry := (store c4 entry)
                            \<lparr>Expiration := (if ttl \<noteq> NoExpiration then UnixNano (t1 + ttl)
                                            else NoExpiration)\<rparr>)\<rparr>
              in if maxSize c5 = NoMaxSize \<and> maxMemoryUsage c5 = NoMaxMemoryUsage then Some c5
                 else
                   (let c6 = (if maxSize c5 \<noteq> NoMaxSize \<and> len c5 > maxSize c5
                              then evict S c5 else c5)
                    in if maxMemoryUsage c6 \<noteq> NoMaxMemoryUsage \<and> memoryUsage c6 > maxMemoryUsage c6
                       then map_option snd (evictWhileOverMemory S 0 c6)
                       else Some c6)))"

definition Set :: "'v sizing \<Rightarrow> int \<Rightarrow> string \<Rightarrow> 'v \<Rightarrow> 'v Cache \<Rightarrow> 'v Cache option" where
  "Set S t0 key val c = SetWithTTL S t0 t0 key val NoExpiration c"

text \<open>
  \<^verbatim>\<open>SetAll\<close> ranges over a Go map; the list is the order the runtime picked, each
  pair with the clock reading of its \<^verbatim>\<open>SetWithTTL\<close>.
\<close>

fun SetAll :: "'v sizing \<Rightarrow> (int \<times> string \<times> 'v) list \<Rightarrow> 'v Cache \<Rightarrow> 'v Cache option" where
  "SetAll S [] c = Some c"
| "SetAll S ((t, key, val) # rest) c =
     (case SetWithTTL S t t key val NoExpiration c of
        None \<Rightarrow> None
      | Some c1 \<Rightarrow> SetAll S rest c1)"

subsection \<open>Reads\<close>

text \<open>
  \<^verbatim>\<open>Get\<close>: \<open>t0\<close> is the clock as \<^verbatim>\<open>Expired\<close> reads it, \<open>t1\<close> as
  \<^verbatim>\<open>Accessed\<close> does. The result \<open>None\<close> is \<^verbatim>\<open>(nil, false)\<close>.
\<close>

definition Get :: "'v sizing \<Rightarrow> int \<Rightarrow> int \<Rightarrow> string \<Rightarrow> 'v Cache \<Rightarrow> 'v Cache \<times> 'v option" where
  "Get S t0 t1 key c =
     (case get key c of
        None \<Rightarrow> (c\<lparr>stats := (stats c)\<lparr>Misses := Misses (stats c) + 1\<rparr>\<rparr>, None)
      | Some entry \<Rightarrow>
          (let c1 = c\<lparr>stats := (stats c)\<lparr>Hits := Hits (stats c) + 1\<rparr>\<rparr>
           in if Expired t0 (store c1 entry) then (fst (delete S key c1), None)
              else if evictionPolicy c1 = LeastRecentlyUsed then
                (let c2 = c1\<lparr>store := (store c1)(entry := Accessed t1 (store c1 entry))\<rparr>
                 in if head c2 = Some entry then (c2, Some (Value (store c2 entry)))
                    else (let c3 = moveExistingEntryToHead entry c2
                          in (c3, Some (Value (store c3 entry)))))
              else (c1, Some (Value (store c1 entry)))))"

subsection \<open>Expiration\<close>

definition TTL :: "int \<Rightarrow> string \<Rightarrow> 'v Cache \<Rightarrow> error + int" where
  "TTL now key c =
     (case get key c of
        None \<Rightarrow> Inl ErrKeyDoesNotExist
      | Some entry \<Rightarrow>
          if Expiration (store c entry) = NoExpiration then Inl ErrKeyHasNoExpiration
          else (let timeUntilExpiration = Until now (Expiration (store c entry))
                in if timeUntilExpiration < 0 then Inl ErrKeyDoesNotExist
                   else Inr timeUntilExpiration))"

definition Expire :: "int \<Rightarrow> int \<Rightarrow> string \<Rightarrow> int \<Rightarrow> 'v Cache \<Rightarrow> 'v Cache \<times> bool" where
  "Expire t0 t1 key ttl c =
     (case get key c of
        None \<Rightarrow> (c, False)
      | Some entry \<Rightarrow>
          if Expired t0 (store c entry) then (c, False)
          else (c\<lparr>store := (store c)(entry := (store c entry)
                      \<lparr>Expiration := (if ttl \<noteq> NoExpiration then UnixNano (t1 + ttl)
                                      else NoExpiration)\<rparr>)\<rparr>, True))"

subsection \<open>Snapshot persistence\<close>

text \<open>
  \<^verbatim>\<open>encoding/gob\<close> writes the map as a sequence of key/element pairs, each element
  with the exported fields of the \<^verbatim>\<open>Entry\<close> only: the links are dropped. The order
  of the pairs is the order in which the runtime ranges over the map, here the
  parameter \<open>order\<close>. The parameter \<open>io\<close> is the first error of
  \<^verbatim>\<open>os.OpenFile\<close>, \<^verbatim>\<open>Encode\<close> or \<^verbatim>\<open>Flush\<close>, if any.
\<close>

type_synonym 'v Snapshot = "(string \<times> 'v Entry) list"

definition exported :: "'v Entry \<Rightarrow> 'v Entry" where
  "exported e = e\<lparr>previous := None, nxt := None\<rparr>"

definition encodeEntries :: "string list \<Rightarrow> 'v Cache \<Rightarrow> 'v Snapshot" where
  "encodeEntries order c =
     List.map_filter (\<lambda>k. map_option (\<lambda>p. (k, exported (store c p))) (entries c k)) order"

definition SaveToFile :: "error option \<Rightarrow> string list \<Rightarrow> 'v Cache \<Rightarrow> error + 'v Snapshot" where
  "SaveToFile io order c = (case io of Some e \<Rightarrow> Inl e | None \<Rightarrow> Inr (encodeEntries order c))"

text \<open>
  What \<^verbatim>\<open>ReadFromFile\<close> finds at the path: the open fails, or the stream breaks
  after some pairs, or it decodes whole.
\<close>

datatype 'v FileRead =
    OpenFailed error
  | DecodeFailed error "'v Snapshot"
  | Decoded "'v Snapshot"

text \<open>
  \<^verbatim>\<open>decoder.Decode(&cache.entries)\<close>. The gob decoder allocates a map only when the
  destination is \<^verbatim>\<open>nil\<close>; into an existing map it stores each decoded pair with
  \<^verbatim>\<open>SetMapIndex\<close>, the element being a newly allocated \<^verbatim>\<open>Entry\<close> with zero
  (\<^verbatim>\<open>nil\<close>) links. \<^verbatim>\<open>cache.entries\<close> is never \<^verbatim>\<open>nil\<close> (\<^verbatim>\<open>NewCache\<close> and
  \<^verbatim>\<open>Clear\<close> make it), so the keys the map already has and the stream does not
  mention stay.
\<close>

fun Decode :: "'v Snapshot \<Rightarrow> 'v Cache \<Rightarrow> 'v Cache" where
  "Decode [] c = c"
| "Decode ((k, e) # rest) c =
     Decode rest (c\<lparr>store := (store c)(fresh c := exported e),
                    entries := (entries c)(k \<mapsto> fresh c),
                    fresh := Suc (fresh c)\<rparr>)"

text \<open>
  The relinking loop over the sorted slice; \<open>prev\<close> is the variable
  \<^verbatim>\<open>previous\<close> of the source.
\<close>

fun relink :: "'v sizing \<Rightarrow> addr option \<Rightarrow> addr list \<Rightarrow> 'v Cache \<Rightarrow> 'v Cache" where
  "relink S prev [] c = c"
| "relink S prev (current # rest) c =
     (let c1 = (case prev of
                  None \<Rightarrow> c\<lparr>tail := Some current, head := Some current\<rparr>
                | Some p \<Rightarrow>
                    (let st1 = (store c)(p := (store c p)\<lparr>nxt := Some current\<rparr>);
                         st2 = st1(current := (st1 current)\<lparr>previous := Some p\<rparr>)
                     in c\<lparr>store := st2, head := Some current\<rparr>));
          c2 = (if maxMemoryUsage c1 \<noteq> NoMaxMemoryUsage
                then c1\<lparr>memoryUsage := memoryUsage c1 + SizeInBytes S (store c1 current)\<rparr>
                else c1)
      in relink S (Some current) rest c2)"

text \<open>
  \<^verbatim>\<open>ReadFromFile\<close>. \<open>order\<close> is the order in which the runtime ranges over
  \<^verbatim>\<open>cache.entries\<close> when the slice is filled. \<^verbatim>\<open>sort.Slice\<close> is not stable; the
  model sorts stably, which loses nothing: whatever sorted arrangement
  \<^verbatim>\<open>sort.Slice\<close> returns is what the stable sort returns for the range order that
  lists the entries in that arrangement. The result is the cache, the number of
  evictions and the error; \<open>None\<close> when an eviction loop does not return.
\<close>

definition ReadFromFile ::
  "'v sizing \<Rightarrow> 'v FileRead \<Rightarrow> string list \<Rightarrow> 'v Cache \<Rightarrow> ('v Cache \<times> int \<times> error option) option" where
  "ReadFromFile S file order c =
     (case file of
        OpenFailed e \<Rightarrow> Some (c, 0, Some e)
      | DecodeFailed e pairs \<Rightarrow> Some (Decode pairs c, 0, Some e)
      | Decoded pairs \<Rightarrow>
          (let c1 = Decode pairs c;
               slice = List.map_filter (entries c1) order;
               sorted = sort_key (\<lambda>p. RelevantTimestamp (store c1 p)) slice;
               c2 = relink S None sorted c1
           in if maxSize c2 = NoMaxSize \<and> maxMemoryUsage c2 = NoMaxMemoryUsage
              then Some (c2, 0, None)
              else
                (case (if maxSize c2 \<noteq> NoMaxSize \<and> len c2 > maxSize c2
                       then evictWhileOverSize S 0 c2 else Some (0, c2)) of
                   None \<Rightarrow> None
                 | Some (n1, c3) \<Rightarrow>
                     (case (if maxMemoryUsage c3 \<noteq> NoMaxMemoryUsage
                               \<and> memoryUsage c3 > maxMemoryUsage c3
                            then evictWhileOverMemory S n1 c3 else Some (n1, c3)) of
                        None \<Rightarrow> None
                      | Some (n2, c4) \<Rightarrow> Some (c4, n2, None)))))"

text \<open>A list enumerates a Go map when it names every key once.\<close>

definition ranges_over :: "string list \<Rightarrow> (string \<rightharpoonup> 'a) \<Rightarrow> bool" where
  "ranges_over order m \<longleftrightarrow> distinct order \<and> set order = dom m"

subsection \<open>The representation invariant\<close>

text \<open>
  \<open>seg st p xs q\<close>: the entries \<open>xs\<close> are chained in this order by their links, the
  first pointing back to \<open>p\<close> and the last forward to \<open>q\<close>.
\<close>

fun seg :: "(addr \<Rightarrow> 'v Entry) \<Rightarrow> addr option \<Rightarrow> addr list \<Rightarrow> addr option \<Rightarrow> bool" where
  "seg st p [] q = True"
| "seg st p (x # xs) q =
     (previous (st x) = p \<and> nxt (st x) = (case xs of [] \<Rightarrow> q | y # _ \<Rightarrow> Some y)
      \<and> seg st (Some x) xs q)"

definition first_of :: "addr list \<Rightarrow> addr option" where
  "first_of xs = (case xs of [] \<Rightarrow> None | x # _ \<Rightarrow> Some x)"

definition last_of :: "addr list \<Rightarrow> addr option" where
  "last_of xs = (if xs = [] then None else Some (last xs))"

text \<open>
  \<open>dll c xs\<close>: the recency list of \<open>c\<close> is \<open>xs\<close>, from the tail (oldest) to the
  head (newest). \<open>indexed c xs\<close>: the map holds exactly the listed entries, each under
  its own key. \<open>cache_inv\<close> adds that every listed entry has been allocated.
\<close>

definition dll :: "'v Cache \<Rightarrow> addr list \<Rightarrow> bool" where
  "dll c xs \<longleftrightarrow> distinct xs \<and> seg (store c) None xs None
                \<and> tail c = first_of xs \<and> head c = last_of xs"

definition indexed :: "'v Cache \<Rightarrow> addr list \<Rightarrow> bool" where
  "indexed c xs \<longleftrightarrow> (\<forall>k p. entries c k = Some p \<longleftrightarrow> p \<in> set xs \<and> Key (store c p) = k)"

definition cache_inv :: "'v Cache \<Rightarrow> addr list \<Rightarrow> bool" where
  "cache_inv c xs \<longleftrightarrow> dll c xs \<and> indexed c xs \<and> (\<forall>p \<in> set xs. p < fresh c)"

text \<open>
  \<open>same_payload c c'\<close>: the two heaps hold the same exported fields at every address;
  only links may differ. \<open>empty_cache\<close> is the state \<^verbatim>\<open>NewCache\<close> and
  \<^verbatim>\<open>Clear\<close> produce, \<open>unlinked\<close> the same without the memory account. \<open>bounded_inv\<close> is the size bound on a well-formed cache.
  \<open>wf_snapshot\<close>: a stream as \<^verbatim>\<open>SaveToFile\<close> writes it, every key once and
  every element under its own key.
\<close>

definition same_payload :: "'v Cache \<Rightarrow> 'v Cache \<Rightarrow> bool" where
  "same_payload c c' \<longleftrightarrow>
     (\<forall>p. Key (store c' p) = Key (store c p) \<and> Value (store c' p) = Value (store c p)
          \<and> RelevantTimestamp (store c' p) = RelevantTimestamp (store c p)
          \<and> Expiration (store c' p) = Expiration (store c p))"

definition empty_cache :: "'v Cache \<Rightarrow> bool" where
  "empty_cache c \<longleftrightarrow> entries c = Map.empty \<and> head c = None \<and> tail c = None \<and> memoryUsage c = 0"

definition unlinked :: "'v Cache \<Rightarrow> bool" where
  "unlinked c \<longleftrightarrow> entries c = Map.empty \<and> head c = None \<and> tail c = None"

definition bounded_inv :: "'v Cache \<Rightarrow> bool" where
  "bounded_inv c \<longleftrightarrow> (\<exists>xs. cache_inv c xs) \<and> maxSize c \<noteq> NoMaxSize \<and> len c \<le> maxSize c"

definition wf_snapshot :: "'v Snapshot \<Rightarrow> bool" where
  "wf_snapshot ps \<longleftrightarrow> distinct (map fst ps) \<and> (\<forall>(k, e) \<in> set ps. Key e = k)"

text \<open>
  The memory account. \<open>entryBytes\<close> is the sum of \<^verbatim>\<open>SizeInBytes\<close> over the
  entries the map holds, \<open>listBytes\<close> the same sum along a list of entries.
  \<open>accounted\<close>: the cache is well formed, memory-bounded, and
  \<^verbatim>\<open>memoryUsage\<close> is that sum; \<open>tracked\<close> says it with the recency list named.
\<close>

definition entryBytes :: "'v sizing \<Rightarrow> 'v Cache \<Rightarrow> int" where
  "entryBytes S c = (\<Sum>p\<in>ran (entries c). SizeInBytes S (store c p))"

definition listBytes :: "'v sizing \<Rightarrow> 'v Cache \<Rightarrow> addr list \<Rightarrow> int" where
  "listBytes S c xs = (\<Sum>p\<leftarrow>xs. SizeInBytes S (store c p))"

definition tracked :: "'v sizing \<Rightarrow> 'v Cache \<Rightarrow> addr list \<Rightarrow> bool" where
  "tracked S c xs \<longleftrightarrow>
     cache_inv c xs \<and> maxMemoryUsage c \<noteq> NoMaxMemoryUsage \<and> memoryUsage c = listBytes S c xs"

definition accounted :: "'v sizing \<Rightarrow> 'v Cache \<Rightarrow> bool" where
  "accounted S c \<longleftrightarrow>
     (\<exists>xs. cache_inv c xs) \<and> maxMemoryUsage c \<noteq> NoMaxMemoryUsage
     \<and> memoryUsage c = entryBytes S c"

subsection \<open>The stages of a write and of a load\<close>

text \<open>
  The body of \<^verbatim>\<open>SetWithTTL\<close> in four stages: the branch that creates the entry,
  the branch that updates it, the assignment of \<^verbatim>\<open>entry.Expiration\<close>, and the
  eviction that closes the function. Lemma \<open>SetWithTTL_stages\<close> shows that
  \<open>SetWithTTL\<close> is their composition.
\<close>

definition insertEntry :: "'v sizing \<Rightarrow> int \<Rightarrow> string \<Rightarrow> 'v \<Rightarrow> 'v Cache \<Rightarrow> 'v Cache" where
  "insertEntry S t0 key val c =
     (let entry = fresh c;
          c1 = c\<lparr>store := (store c)(entry :=
                   \<lparr>Key = key, Value = val, RelevantTimestamp = t0, Expiration = 0,
                    previous = head c, nxt = None\<rparr>),
                 fresh := Suc entry\<rparr>;
          c2 = (case head c1 of
                  None \<Rightarrow> c1\<lparr>tail := Some entry\<rparr>
                | Some h \<Rightarrow> c1\<lparr>store := (store c1)(h := (store c1 h)\<lparr>nxt := Some entry\<rparr>)\<rparr>);
          c3 = c2\<lparr>head := Some entry, entries := (entries c2)(key \<mapsto> entry)\<rparr>
      in if maxMemoryUsage c3 \<noteq> NoMaxMemoryUsage
         then c3\<lparr>memoryUsage := memoryUsage c3 + SizeInBytes S (store c3 entry)\<rparr>
         else c3)"

definition updateEntry :: "'v sizing \<Rightarrow> 'v \<Rightarrow> addr \<Rightarrow> 'v Cache \<Rightarrow> 'v Cache" where
  "updateEntry S val entry c =
     (let c1 = (if maxMemoryUsage c \<noteq> NoMaxMemoryUsage
                then c\<lparr>memoryUsage := memoryUsage c - SizeInBytes S (store c entry)\<rparr>
                else c);
          c2 = c1\<lparr>store := (store c1)(entry := (store c1 entry)\<lparr>Value := val\<rparr>)\<rparr>;
          c3 = (if maxMemoryUsage c2 \<noteq> NoMaxMemoryUsage
                then c2\<lparr>memoryUsage := memoryUsage c2 + SizeInBytes S (store c2 entry)\<rparr>
                else c2)
      in moveExistingEntryToHead entry c3)"

definition setExpiration :: "int \<Rightarrow> int \<Rightarrow> addr \<Rightarrow> 'v Cache \<Rightarrow> 'v Cache" where
  "setExpiration t1 ttl entry c =
     c\<lparr>store := (store c)(entry := (store c entry)
          \<lparr>Expiration := (if ttl \<noteq> NoExpiration then UnixNano (t1 + ttl) else NoExpiration)\<rparr>)\<rparr>"

definition enforceBounds :: "'v sizing \<Rightarrow> 'v Cache \<Rightarrow> 'v Cache option" where
  "enforceBounds S c5 =
     (if maxSize c5 = NoMaxSize \<and> maxMemoryUsage c5 = NoMaxMemoryUsage then Some c5
      else
        (let c6 = (if maxSize c5 \<noteq> NoMaxSize \<and> len c5 > maxSize c5 then evict S c5 else c5)
         in if maxMemoryUsage c6 \<noteq> NoMaxMemoryUsage \<and> memoryUsage c6 > maxMemoryUsage c6
            then map_option snd (evictWhileOverMemory S 0 c6)
            else Some c6))"

text \<open>
  The body of \<^verbatim>\<open>ReadFromFile\<close> likewise: one turn of the relinking loop, the
  sorted slice, and the cache as the relinking loop leaves it (lemmas \<open>relink_Cons\<close>
  and \<open>ReadFromFile_Decoded\<close>).
\<close>

definition relinkOne :: "'v sizing \<Rightarrow> addr option \<Rightarrow> addr \<Rightarrow> 'v Cache \<Rightarrow> 'v Cache" where
  "relinkOne S prev current c =
     (let c1 = (case prev of
                  None \<Rightarrow> c\<lparr>tail := Some current, head := Some current\<rparr>
                | Some p \<Rightarrow>
                    (let st1 = (store c)(p := (store c p)\<lparr>nxt := Some current\<rparr>);
                         st2 = st1(current := (st1 current)\<lparr>previous := Some p\<rparr>)
                     in c\<lparr>store := st2, head := Some current\<rparr>))
      in if maxMemoryUsage c1 \<noteq> NoMaxMemoryUsage
         then c1\<lparr>memoryUsage := memoryUsage c1 + SizeInBytes S (store c1 current)\<rparr>
         else c1)"

definition sortedSlice :: "string list \<Rightarrow> 'v Cache \<Rightarrow> addr list" where
  "sortedSlice order c1 =
     sort_key (\<lambda>p. RelevantTimestamp (store c1 p)) (List.map_filter (entries c1) order)"

definition relinked :: "'v sizing \<Rightarrow> 'v Snapshot \<Rightarrow> string list \<Rightarrow> 'v Cache \<Rightarrow> 'v Cache" where
  "relinked S ps order c = relink S None (sortedSlice order (Decode ps c)) (Decode ps c)"

subsection \<open>Sample caches\<close>

text \<open>
  String-valued caches with the size of a value its length and an overhead of 32 bytes.
  \<open>c_a\<close>, \<open>c_ab\<close> and \<open>c_abc\<close> are what \<^verbatim>\<open>Set("a","x")\<close>, \<^verbatim>\<open>Set("b","y")\<close>
  and \<^verbatim>\<open>Set("c","z")\<close> build at the instants 1, 2 and 3, starting from
  \<^verbatim>\<open>NewCache()\<close>.
\<close>

definition blank :: "string Entry" where
  "blank = \<lparr>Key = [], Value = [], RelevantTimestamp = 0, Expiration = 0,
            previous = None, nxt = None\<rparr>"

definition S0 :: "string sizing" where
  "S0 = \<lparr>overhead = 32, size_of = (\<lambda>v. int (length v))\<rparr>"

definition c_new :: "string Cache" where
  "c_new = NewCache (\<lambda>_. blank) 0"

definition c_a :: "string Cache" where
  "c_a = \<lparr>maxSize = 100000, maxMemoryUsage = 0, evictionPolicy = FirstInFirstOut,
      stats = \<lparr>EvictedKeys = 0, Hits = 0, Misses = 0\<rparr>, entries = [''a'' \<mapsto> 0],
      head = Some 0, tail = Some 0, memoryUsage = 0,
      store = (\<lambda>_. blank)
        (0 := \<lparr>Key = ''a'', Value = ''x'', RelevantTimestamp = 1, Expiration = - 1,
               previous = None, nxt = None\<rparr>),
      fresh = 1\<rparr>"

definition c_ab :: "string Cache" where
  "c_ab = \<lparr>maxSize = 100000, maxMemoryUsage = 0, evictionPolicy = FirstInFirstOut,
      stats = \<lparr>EvictedKeys = 0, Hits = 0, Misses = 0\<rparr>,
      entries = [''a'' \<mapsto> 0, ''b'' \<mapsto> 1],
      head = Some 1, tail = Some 0, memoryUsage = 0,
      store = (\<lambda>_. blank)
        (0 := \<lparr>Key = ''a'', Value = ''x'', RelevantTimestamp = 1, Expiration = - 1,
               previous = None, nxt = Some 1\<rparr>,
         1 := \<lparr>Key = ''b'', Value = ''y'', RelevantTimestamp = 2, Expiration = - 1,
               previous = Some 0, nxt = None\<rparr>),
      fresh = 2\<rparr>"

definition c_abc :: "string Cache" where
  "c_abc = \<lparr>maxSize = 100000, maxMemoryUsage = 0, evictionPolicy = FirstInFirstOut,
      stats = \<lparr>EvictedKeys = 0, Hits = 0, Misses = 0\<rparr>,
      entries = [''a'' \<mapsto> 0, ''b'' \<mapsto> 1, ''c'' \<mapsto> 2],
      head = Some 2, tail = Some 0, memoryUsage = 0,
      store = (\<lambda>_. blank)
        (0 := \<lparr>Key = ''a'', Value = ''x'', RelevantTimestamp = 1, Expiration = - 1,
               previous = None, nxt = Some 1\<rparr>,
         1 := \<lparr>Key = ''b'', Value = ''y'', RelevantTimestamp = 2, Expiration = - 1,
               previous = Some 0, nxt = Some 2\<rparr>,
         2 := \<lparr>Key = ''c'', Value = ''z'', RelevantTimestamp = 3, Expiration = - 1,
               previous = Some 1, nxt = None\<rparr>),
      fresh = 3\<rparr>"

text \<open>
  \<open>c_t\<close> is a memory-bounded LRU cache after
  \<^verbatim>\<open>SetWithTTL("t","v",10ns)\<close> at the instant 90.
\<close>

definition c_t :: "string Cache" where
  "c_t = \<lparr>maxSize = 100000, maxMemoryUsage = 1024, evictionPolicy = LeastRecentlyUsed,
      stats = \<lparr>EvictedKeys = 0, Hits = 0, Misses = 0\<rparr>, entries = [''t'' \<mapsto> 0],
      head = Some 0, tail = Some 0, memoryUsage = 34,
      store = (\<lambda>_. blank)
        (0 := \<lparr>Key = ''t'', Value = ''v'', RelevantTimestamp = 90, Expiration = 100,
               previous = None, nxt = None\<rparr>),
      fresh = 1\<rparr>"

text \<open>
  \<open>snap10\<close> is a snapshot of ten entries with the keys \<open>0\<close> to \<open>9\<close>, stamped
  1 to 10, and \<open>order10\<close> one order in which the runtime may range over the decoded
  map; \<open>c_max7\<close> is the empty cache they are loaded into.
\<close>

definition snap_entry :: "string \<Rightarrow> int \<Rightarrow> string \<times> string Entry" where
  "snap_entry k t =
     (k, \<lparr>Key = k, Value = CHR ''v'' # k, RelevantTimestamp = t, Expiration = - 1,
          previous = None, nxt = None\<rparr>)"

definition snap10 :: "string Snapshot" where
  "snap10 = [snap_entry ''0'' 1, snap_entry ''1'' 2, snap_entry ''2'' 3, snap_entry ''3'' 4,
             snap_entry ''4'' 5, snap_entry ''5'' 6, snap_entry ''6'' 7, snap_entry ''7'' 8,
             snap_entry ''8'' 9, snap_entry ''9'' 10]"

definition order10 :: "string list" where
  "order10 = [''4'', ''9'', ''0'', ''7'', ''2'', ''5'', ''1'', ''8'', ''3'', ''6'']"

definition c_max7 :: "string Cache" where
  "c_max7 = WithMaxSize 7 c_new"




text \<open>
  \<open>c_ba\<close> is \<open>c_ab\<close> after \<^verbatim>\<open>Set("a","z")\<close>: the update moves \<open>a\<close>
  to the head and leaves its timestamp at 1.
\<close>

definition c_ba :: "string Cache" where
  "c_ba = \<lparr>maxSize = 100000, maxMemoryUsage = 0, evictionPolicy = FirstInFirstOut,
      stats = \<lparr>EvictedKeys = 0, Hits = 0, Misses = 0\<rparr>,
      entries = [''a'' \<mapsto> 0, ''b'' \<mapsto> 1],
      head = Some 0, tail = Some 1, memoryUsage = 0,
      store = (\<lambda>_. blank)
        (0 := \<lparr>Key = ''a'', Value = ''z'', RelevantTimestamp = 1, Expiration = - 1,
               previous = Some 1, nxt = None\<rparr>,
         1 := \<lparr>Key = ''b'', Value = ''y'', RelevantTimestamp = 2, Expiration = - 1,
               previous = None, nxt = Some 0\<rparr>),
      fresh = 2\<rparr>"

section \<open>The representation invariant and what preserves it\<close>

subsection \<open>Chains of entries\<close>

text \<open>
  How \<^verbatim>\<open>removeExistingEntryReferences\<close> and \<^verbatim>\<open>moveExistingEntryToHead\<close> act
  on a chain: unlinking an entry of the recency list leaves the list without it, and
  moving it to the head appends it again.
\<close>

lemma remove_refs_ends:
  "tail (removeExistingEntryReferences e c) =
     (if tail c = Some e then (if head c = Some e then None else nxt (store c e)) else tail c)"
  "head (removeExistingEntryReferences e c) =
     (if head c = Some e then (if tail c = Some e then None else previous (store c e))
      else head c)"
  by (auto simp: removeExistingEntryReferences_def Let_def)

lemma seg_cong:
  "\<forall>x\<in>set xs. previous (st' x) = previous (st x) \<and> nxt (st' x) = nxt (st x)
   \<Longrightarrow> seg st' p xs q = seg st p xs q"
  by (induction xs arbitrary: p) auto

lemma seg_upd_other: "x \<notin> set xs \<Longrightarrow> seg (st(x := e)) p xs q = seg st p xs q"
  by (rule seg_cong) auto

lemma seg_append:
  "seg st p (ys @ zs) q \<longleftrightarrow>
     seg st p ys (case zs of [] \<Rightarrow> q | z # _ \<Rightarrow> Some z) \<and> seg st (if ys = [] then p else Some (last ys)) zs q"
  by (induction ys arbitrary: p) (auto split: list.splits)

lemma seg_set_next:
  "seg st p (ys @ [y]) q \<Longrightarrow> y \<notin> set ys \<Longrightarrow> seg (st(y := (st y)\<lparr>nxt := q'\<rparr>)) p (ys @ [y]) q'"
  by (induction ys arbitrary: p) (auto split: list.splits)

lemma seg_set_prev:
  "seg st p (z # zs) q \<Longrightarrow> z \<notin> set zs \<Longrightarrow> seg (st(z := (st z)\<lparr>previous := p'\<rparr>)) p' (z # zs) q"
  by (auto simp: seg_upd_other split: list.splits)

lemma first_of_simps [simp]: "first_of [] = None" "first_of (x # xs) = Some x"
  by (simp_all add: first_of_def)

lemma last_of_simps [simp]: "last_of [] = None" "last_of (xs @ [x]) = Some x"
  by (simp_all add: last_of_def)

lemma last_of_Cons [simp]: "last_of (x # xs) = (if xs = [] then Some x else last_of xs)"
  by (simp add: last_of_def)

lemma first_of_append: "first_of (xs @ ys) = (if xs = [] then first_of ys else first_of xs)"
  by (cases xs) auto

lemma last_of_append: "last_of (xs @ ys) = (if ys = [] then last_of xs else last_of ys)"
  by (simp add: last_of_def)

lemma last_of_mem: "last_of xs = Some x \<Longrightarrow> x \<in> set xs"
  by (auto simp: last_of_def split: if_splits)

lemma first_of_mem: "first_of xs = Some x \<Longrightarrow> x \<in> set xs"
  by (auto simp: first_of_def split: list.splits)

lemma remove_refs_fields [simp]:
  "entries (removeExistingEntryReferences e c) = entries c"
  "maxSize (removeExistingEntryReferences e c) = maxSize c"
  "maxMemoryUsage (removeExistingEntryReferences e c) = maxMemoryUsage c"
  "evictionPolicy (removeExistingEntryReferences e c) = evictionPolicy c"
  "stats (removeExistingEntryReferences e c) = stats c"
  "memoryUsage (removeExistingEntryReferences e c) = memoryUsage c"
  "fresh (removeExistingEntryReferences e c) = fresh c"
  by (simp_all add: removeExistingEntryReferences_def Let_def)

lemma remove_refs_payload:
  "Key (store (removeExistingEntryReferences e c) x) = Key (store c x)"
  "Value (store (removeExistingEntryReferences e c) x) = Value (store c x)"
  "RelevantTimestamp (store (removeExistingEntryReferences e c) x) = RelevantTimestamp (store c x)"
  "Expiration (store (removeExistingEntryReferences e c) x) = Expiration (store c x)"
  by (auto simp: removeExistingEntryReferences_def Let_def split: option.splits)

lemma remove_refs_links:
  assumes "previous (store c e) = p" "nxt (store c e) = n" "p \<noteq> Some e" "n \<noteq> Some e" "p = None \<or> p \<noteq> n"
  shows "previous (store (removeExistingEntryReferences e c) x) =
           (if x = e then None else if n = Some x then p else previous (store c x))"
    and "nxt (store (removeExistingEntryReferences e c) x) =
           (if x = e then None else if p = Some x then n else nxt (store c x))"
  using assms by (auto simp: removeExistingEntryReferences_def Let_def split: option.splits)

lemma remove_refs_cleared:
  "previous (store (removeExistingEntryReferences e c) e) = None"
  "nxt (store (removeExistingEntryReferences e c) e) = None"
  by (simp_all add: removeExistingEntryReferences_def Let_def)

lemma remove_refs_dll:
  assumes "dll c (ys @ e # zs)"
  shows "dll (removeExistingEntryReferences e c) (ys @ zs)"
proof -
  let ?c' = "removeExistingEntryReferences e c"
  let ?st = "store c" and ?st' = "store (removeExistingEntryReferences e c)"
  from assms have d: "distinct (ys @ e # zs)" and s: "seg (store c) None (ys @ e # zs) None"
    and t: "tail c = first_of (ys @ e # zs)" and h: "head c = last_of (ys @ e # zs)"
    by (auto simp: dll_def)
  from s have sy: "seg ?st None ys (Some e)" and se: "seg ?st (last_of ys) (e # zs) None"
    by (simp_all add: seg_append last_of_def)
  from se have p: "previous (?st e) = last_of ys" and n: "nxt (?st e) = first_of zs"
    and sz: "seg ?st (Some e) zs None"
    by (auto simp: first_of_def split: list.splits)
  have pe: "last_of ys \<noteq> Some e" and ne: "first_of zs \<noteq> Some e"
    and pn: "last_of ys = None \<or> last_of ys \<noteq> first_of zs"
    using d by (auto simp: last_of_def first_of_def split: list.splits)
  note links = remove_refs_links [OF p n pe ne pn]
  have ly: "\<And>x. last_of ys = Some x \<Longrightarrow> x \<in> set ys"
    by (auto simp: last_of_def split: if_splits)
  have fz: "\<And>x. first_of zs = Some x \<Longrightarrow> x \<in> set zs"
    by (auto simp: first_of_def split: list.splits)
  have te: "tail c = Some e \<longleftrightarrow> ys = []"
    using d t by (cases ys) auto
  have he: "head c = Some e \<longleftrightarrow> zs = []"
    using d h by (cases zs rule: rev_cases) (auto simp: last_of_def)
  have t': "tail ?c' = first_of (ys @ zs)"
    using t te he n by (auto simp: remove_refs_ends first_of_append)
  have h': "head ?c' = last_of (ys @ zs)"
    using h te he p by (auto simp: remove_refs_ends last_of_append)
  have s1: "seg ?st' None ys (first_of zs)"
  proof (cases ys rule: rev_cases)
    case Nil then show ?thesis by simp
  next
    case (snoc ys' y)
    with sy d have "seg (?st(y := (?st y)\<lparr>nxt := first_of zs\<rparr>)) None (ys' @ [y]) (first_of zs)"
      by (intro seg_set_next) auto
    moreover have "seg ?st' None ys (first_of zs) = seg (?st(y := (?st y)\<lparr>nxt := first_of zs\<rparr>)) None ys (first_of zs)"
      using d snoc by (intro seg_cong) (auto simp: links dest: fz)
    ultimately show ?thesis using snoc by simp
  qed
  have s2: "seg ?st' (last_of ys) zs None"
  proof (cases zs)
    case Nil then show ?thesis by simp
  next
    case (Cons z zs')
    with sz d have "seg (?st(z := (?st z)\<lparr>previous := last_of ys\<rparr>)) (last_of ys) (z # zs') None"
      by (intro seg_set_prev) auto
    moreover have "seg ?st' (last_of ys) zs None = seg (?st(z := (?st z)\<lparr>previous := last_of ys\<rparr>)) (last_of ys) zs None"
      using d Cons by (intro seg_cong) (auto simp: links dest: ly)
    ultimately show ?thesis using Cons by simp
  qed
  from s1 s2 have "seg ?st' None (ys @ zs) None"
    by (simp add: seg_append first_of_def last_of_def)
  with d t' h' show ?thesis by (simp add: dll_def)
qed

lemma seg_snoc:
  assumes "seg st None xs None" and "e \<notin> set xs" and "distinct xs"
    and "previous E = last_of xs" and "nxt E = None"
  shows "seg (case last_of xs of None \<Rightarrow> st(e := E)
              | Some h \<Rightarrow> (st(e := E))(h := ((st(e := E)) h)\<lparr>nxt := Some e\<rparr>))
           None (xs @ [e]) None"
proof (cases xs rule: rev_cases)
  case Nil
  with assms show ?thesis by simp
next
  case (snoc ys y)
  with assms have "seg (st(e := E)) None (ys @ [y]) None"
    by (simp add: seg_upd_other)
  with assms snoc have "seg ((st(e := E))(y := ((st(e := E)) y)\<lparr>nxt := Some e\<rparr>)) None (ys @ [y]) (Some e)"
    by (intro seg_set_next) auto
  with assms snoc show ?thesis
    by (auto simp: seg_append)
qed

lemma move_to_head_fields [simp]:
  "entries (moveExistingEntryToHead e c) = entries c"
  "maxSize (moveExistingEntryToHead e c) = maxSize c"
  "maxMemoryUsage (moveExistingEntryToHead e c) = maxMemoryUsage c"
  "evictionPolicy (moveExistingEntryToHead e c) = evictionPolicy c"
  "stats (moveExistingEntryToHead e c) = stats c"
  "memoryUsage (moveExistingEntryToHead e c) = memoryUsage c"
  "fresh (moveExistingEntryToHead e c) = fresh c"
  by (simp_all add: moveExistingEntryToHead_def Let_def)

lemma move_to_head_payload:
  "Key (store (moveExistingEntryToHead e c) x) = Key (store c x)"
  "Value (store (moveExistingEntryToHead e c) x) = Value (store c x)"
  "RelevantTimestamp (store (moveExistingEntryToHead e c) x) = RelevantTimestamp (store c x)"
  "Expiration (store (moveExistingEntryToHead e c) x) = Expiration (store c x)"
  by (auto simp: moveExistingEntryToHead_def Let_def remove_refs_payload split: option.splits)

lemma dll_head_tail: "dll c xs \<Longrightarrow> tail c = first_of xs \<and> head c = last_of xs"
  by (simp add: dll_def)

lemma move_to_head_dll:
  assumes "dll c (ys @ e # zs)"
  shows "dll (moveExistingEntryToHead e c) (ys @ zs @ [e])"
proof (cases "ys = [] \<and> zs = []")
  case True
  with assms have "head c = Some e" "tail c = Some e" by (auto simp: dll_def)
  with assms True show ?thesis by (simp add: moveExistingEntryToHead_def)
next
  case False
  let ?c1 = "removeExistingEntryReferences e c"
  from assms have d: "distinct (ys @ e # zs)" by (simp add: dll_def)
  from assms have "\<not> (Some e = head c \<and> Some e = tail c)"
    using False d by (cases ys; cases zs rule: rev_cases) (auto simp: dll_def last_of_def)
  moreover have d1: "dll ?c1 (ys @ zs)" by (rule remove_refs_dll [OF assms])
  moreover have "Some e \<noteq> head ?c1"
    using d1 d last_of_mem [of "ys @ zs" e] by (auto simp: dll_def)
  ultimately have eq: "moveExistingEntryToHead e c =
      ?c1\<lparr>store := (case last_of (ys @ zs) of
                       None \<Rightarrow> (store ?c1)(e := (store ?c1 e)\<lparr>previous := last_of (ys @ zs), nxt := None\<rparr>)
                     | Some h \<Rightarrow> ((store ?c1)(e := (store ?c1 e)\<lparr>previous := last_of (ys @ zs), nxt := None\<rparr>))
                          (h := (((store ?c1)(e := (store ?c1 e)\<lparr>previous := last_of (ys @ zs), nxt := None\<rparr>)) h)\<lparr>nxt := Some e\<rparr>)),
             head := Some e\<rparr>"
    using d1 by (simp add: moveExistingEntryToHead_def Let_def dll_def)
  from d1 d have "seg (case last_of (ys @ zs) of
                       None \<Rightarrow> (store ?c1)(e := (store ?c1 e)\<lparr>previous := last_of (ys @ zs), nxt := None\<rparr>)
                     | Some h \<Rightarrow> ((store ?c1)(e := (store ?c1 e)\<lparr>previous := last_of (ys @ zs), nxt := None\<rparr>))
                          (h := (((store ?c1)(e := (store ?c1 e)\<lparr>previous := last_of (ys @ zs), nxt := None\<rparr>)) h)\<lparr>nxt := Some e\<rparr>))
           None ((ys @ zs) @ [e]) None"
    by (intro seg_snoc) (auto simp: dll_def)
  moreover have "tail ?c1 = first_of (ys @ zs @ [e])"
    using d1 False by (cases ys; cases zs) (auto simp: dll_def)
  ultimately show ?thesis
    using d by (simp add: eq dll_def last_of_append)
qed

subsection \<open>The invariant under unlinking and deletion\<close>

lemma remove_refs_dll_remove1:
  assumes "dll c xs" and "e \<in> set xs"
  shows "dll (removeExistingEntryReferences e c) (remove1 e xs)"
proof -
  from assms(2) obtain ys zs where xs: "xs = ys @ e # zs" and "e \<notin> set ys"
    by (auto dest: split_list_first)
  then have "remove1 e xs = ys @ zs" by (simp add: remove1_append)
  with assms(1) xs show ?thesis by (simp add: remove_refs_dll)
qed

lemma move_to_head_dll_remove1:
  assumes "dll c xs" and "e \<in> set xs"
  shows "dll (moveExistingEntryToHead e c) (remove1 e xs @ [e])"
proof -
  from assms(2) obtain ys zs where xs: "xs = ys @ e # zs" and "e \<notin> set ys"
    by (auto dest: split_list_first)
  then have "remove1 e xs = ys @ zs" by (simp add: remove1_append)
  with assms(1) xs show ?thesis by (simp add: move_to_head_dll)
qed

lemma dll_irrelevant [simp]:
  "dll (memoryUsage_update f1 c) xs = dll c xs"
  "dll (stats_update f2 c) xs = dll c xs"
  "dll (entries_update f3 c) xs = dll c xs"
  "dll (fresh_update f4 c) xs = dll c xs"
  "dll (maxSize_update f5 c) xs = dll c xs"
  "dll (maxMemoryUsage_update f6 c) xs = dll c xs"
  "dll (evictionPolicy_update f7 c) xs = dll c xs"
  by (simp_all add: dll_def)

lemma indexed_irrelevant [simp]:
  "indexed (memoryUsage_update f1 c) xs = indexed c xs"
  "indexed (stats_update f2 c) xs = indexed c xs"
  "indexed (head_update f3 c) xs = indexed c xs"
  "indexed (tail_update f8 c) xs = indexed c xs"
  "indexed (fresh_update f4 c) xs = indexed c xs"
  "indexed (maxSize_update f5 c) xs = indexed c xs"
  "indexed (maxMemoryUsage_update f6 c) xs = indexed c xs"
  "indexed (evictionPolicy_update f7 c) xs = indexed c xs"
  by (simp_all add: indexed_def)

lemma cache_inv_irrelevant [simp]:
  "cache_inv (memoryUsage_update f1 c) xs = cache_inv c xs"
  "cache_inv (stats_update f2 c) xs = cache_inv c xs"
  "cache_inv (maxSize_update f5 c) xs = cache_inv c xs"
  "cache_inv (maxMemoryUsage_update f6 c) xs = cache_inv c xs"
  "cache_inv (evictionPolicy_update f7 c) xs = cache_inv c xs"
  by (simp_all add: cache_inv_def)

lemma remove_refs_store_cong:
  "store c' = store c \<Longrightarrow>
   store (removeExistingEntryReferences e c') = store (removeExistingEntryReferences e c)"
  apply (simp add: removeExistingEntryReferences_def Let_def)
  apply (auto split: option.splits)
  done

lemma remove_refs_more [simp]: "Cache.more (removeExistingEntryReferences e c) = Cache.more c"
  by (simp add: removeExistingEntryReferences_def Let_def)

lemma remove_refs_commute [simp]:
  "removeExistingEntryReferences e (memoryUsage_update f1 c) =
     memoryUsage_update f1 (removeExistingEntryReferences e c)"
  "removeExistingEntryReferences e (stats_update f2 c) =
     stats_update f2 (removeExistingEntryReferences e c)"
proof -
  have "store (removeExistingEntryReferences e (memoryUsage_update f1 c)) =
        store (removeExistingEntryReferences e c)"
    by (rule remove_refs_store_cong) simp
  then show "removeExistingEntryReferences e (memoryUsage_update f1 c) =
     memoryUsage_update f1 (removeExistingEntryReferences e c)"
    by (intro Cache.equality) (simp_all add: remove_refs_ends)
  have "store (removeExistingEntryReferences e (stats_update f2 c)) =
        store (removeExistingEntryReferences e c)"
    by (rule remove_refs_store_cong) simp
  then show "removeExistingEntryReferences e (stats_update f2 c) =
     stats_update f2 (removeExistingEntryReferences e c)"
    by (intro Cache.equality) (simp_all add: remove_refs_ends)
qed

lemma indexed_key_inj:
  "indexed c xs \<Longrightarrow> p \<in> set xs \<Longrightarrow> q \<in> set xs \<Longrightarrow> Key (store c p) = Key (store c q) \<Longrightarrow> p = q"
  by (metis indexed_def option.inject)

lemma indexed_lookup: "indexed c xs \<Longrightarrow> p \<in> set xs \<Longrightarrow> entries c (Key (store c p)) = Some p"
  by (simp add: indexed_def)

lemma indexed_mem: "indexed c xs \<Longrightarrow> entries c k = Some p \<Longrightarrow> p \<in> set xs \<and> Key (store c p) = k"
  by (simp add: indexed_def)

lemma indexed_dom: "indexed c xs \<Longrightarrow> dom (entries c) = (\<lambda>p. Key (store c p)) ` set xs"
  by (auto simp: indexed_def dom_def)

lemma cache_inv_len:
  assumes "cache_inv c xs" shows "len c = int (length xs)"
proof -
  from assms have i: "indexed c xs" and d: "distinct xs" by (auto simp: cache_inv_def dll_def)
  have "inj_on (\<lambda>p. Key (store c p)) (set xs)"
    using i by (auto intro!: inj_onI dest: indexed_key_inj)
  then have "card ((\<lambda>p. Key (store c p)) ` set xs) = card (set xs)" by (rule card_image)
  with d show ?thesis by (simp add: len_def indexed_dom [OF i] distinct_card)
qed

lemma indexed_remove:
  assumes "indexed c xs" and "distinct xs" and "p \<in> set xs"
    and "\<forall>x. Key (store c' x) = Key (store c x)"
    and "entries c' = (entries c)(Key (store c p) := None)"
  shows "indexed c' (remove1 p xs)"
  unfolding indexed_def
proof (intro allI)
  fix k q
  show "(entries c' k = Some q) = (q \<in> set (remove1 p xs) \<and> Key (store c' q) = k)"
    using assms indexed_key_inj [OF assms(1), of q p]
    by (auto simp: indexed_def)
qed

lemma delete_hit:
  "entries c key = Some p \<Longrightarrow>
   delete S key c =
     ((removeExistingEntryReferences p c)
        \<lparr>memoryUsage := (if maxMemoryUsage c \<noteq> NoMaxMemoryUsage
                         then memoryUsage c - SizeInBytes S (store c p) else memoryUsage c),
         entries := (entries c)(key := None)\<rparr>, True)"
  by (simp add: delete_def Let_def)

lemma delete_miss: "entries c key = None \<Longrightarrow> delete S key c = (c, False)"
  by (simp add: delete_def)

lemma delete_inv:
  assumes "cache_inv c xs" and "entries c key = Some p"
  shows "cache_inv (fst (delete S key c)) (remove1 p xs)"
proof -
  from assms have d: "dll c xs" and i: "indexed c xs" and f: "\<forall>q\<in>set xs. q < fresh c"
    by (auto simp: cache_inv_def)
  from i assms(2) have mem: "p \<in> set xs" and k: "Key (store c p) = key"
    by (auto dest: indexed_mem)
  from d have dist: "distinct xs" by (simp add: dll_def)
  let ?c' = "fst (delete S key c)"
  have "dll ?c' (remove1 p xs)"
    using remove_refs_dll_remove1 [OF d mem] by (simp add: delete_hit [OF assms(2)])
  moreover have "indexed ?c' (remove1 p xs)"
    by (rule indexed_remove [OF i dist mem])
       (simp_all add: delete_hit [OF assms(2)] remove_refs_payload k)
  moreover have "\<forall>q\<in>set (remove1 p xs). q < fresh ?c'"
    using f dist by (simp add: delete_hit [OF assms(2)])
  ultimately show ?thesis by (simp add: cache_inv_def)
qed

subsection \<open>Eviction\<close>

text \<open>
  \<^verbatim>\<open>evict\<close> drops the tail of a well-formed cache. On a well-formed cache both
  eviction loops return: each turn shortens the list, and the memory loop also stops on
  an empty map.
\<close>

lemma evict_hit:
  assumes "tail c = Some x" and "len c \<noteq> 0"
  shows "evict S c =
     (removeExistingEntryReferences x c)
       \<lparr>entries := (entries c)(Key (store c x) := None),
        memoryUsage := (if maxMemoryUsage c \<noteq> NoMaxMemoryUsage
                        then memoryUsage c - SizeInBytes S (store c x) else memoryUsage c),
        stats := (stats c)\<lparr>EvictedKeys := EvictedKeys (stats c) + 1\<rparr>\<rparr>"
  using assms by (simp add: evict_def Let_def remove_refs_payload SizeInBytes_def)

lemma evict_inv:
  assumes "cache_inv c (x # xs)"
  shows "cache_inv (evict S c) xs"
    and "evict S c =
     (removeExistingEntryReferences x c)
       \<lparr>entries := (entries c)(Key (store c x) := None),
        memoryUsage := (if maxMemoryUsage c \<noteq> NoMaxMemoryUsage
                        then memoryUsage c - SizeInBytes S (store c x) else memoryUsage c),
        stats := (stats c)\<lparr>EvictedKeys := EvictedKeys (stats c) + 1\<rparr>\<rparr>"
proof -
  from assms have d: "dll c (x # xs)" and i: "indexed c (x # xs)"
    and f: "\<forall>q\<in>set (x # xs). q < fresh c"
    by (auto simp: cache_inv_def)
  from d have t: "tail c = Some x" and dist: "distinct (x # xs)" by (simp_all add: dll_def)
  have l: "len c \<noteq> 0" using cache_inv_len [OF assms] by simp
  show eq: "evict S c =
     (removeExistingEntryReferences x c)
       \<lparr>entries := (entries c)(Key (store c x) := None),
        memoryUsage := (if maxMemoryUsage c \<noteq> NoMaxMemoryUsage
                        then memoryUsage c - SizeInBytes S (store c x) else memoryUsage c),
        stats := (stats c)\<lparr>EvictedKeys := EvictedKeys (stats c) + 1\<rparr>\<rparr>"
    by (rule evict_hit [OF t l])
  have "dll (evict S c) (remove1 x (x # xs))"
    using remove_refs_dll_remove1 [OF d, of x] by (simp add: eq)
  moreover have "indexed (evict S c) (remove1 x (x # xs))"
    by (rule indexed_remove [OF i dist]) (simp_all add: eq remove_refs_payload)
  moreover have "\<forall>q\<in>set xs. q < fresh (evict S c)"
    using f by (simp add: eq)
  ultimately show "cache_inv (evict S c) xs" by (simp add: cache_inv_def)
qed


lemma evict_config [simp]:
  "maxSize (evict S c) = maxSize c"
  "maxMemoryUsage (evict S c) = maxMemoryUsage c"
  "evictionPolicy (evict S c) = evictionPolicy c"
  by (auto simp: evict_def Let_def split: option.splits)

lemma evict_payload:
  "Key (store (evict S c) p) = Key (store c p)"
  "Value (store (evict S c) p) = Value (store c p)"
  "RelevantTimestamp (store (evict S c) p) = RelevantTimestamp (store c p)"
  "Expiration (store (evict S c) p) = Expiration (store c p)"
  by (auto simp: evict_def Let_def remove_refs_payload split: option.splits)


lemma same_payload_refl [simp]: "same_payload c c"
  by (simp add: same_payload_def)

lemma same_payload_trans: "same_payload a b \<Longrightarrow> same_payload b c \<Longrightarrow> same_payload a c"
  by (simp add: same_payload_def)

lemma same_payload_evict [simp]: "same_payload c (evict S c)"
  by (simp add: same_payload_def evict_payload)

lemma evictWhileOverMemory_returns:
  assumes "cache_inv c xs"
  shows "\<exists>c' k. evictWhileOverMemory S n c = Some (n + int k, c') \<and> cache_inv c' (drop k xs)
           \<and> k \<le> length xs
           \<and> maxSize c' = maxSize c \<and> maxMemoryUsage c' = maxMemoryUsage c
           \<and> evictionPolicy c' = evictionPolicy c \<and> same_payload c c'
           \<and> EvictedKeys (stats c') = EvictedKeys (stats c) + k
           \<and> (k = 0 \<longrightarrow> c' = c)"
  using assms
proof (induction xs arbitrary: c n)
  case Nil
  then have "len c = 0" by (simp add: cache_inv_len)
  then have "evictWhileOverMemory S n c = Some (n, c)"
    by (subst evictWhileOverMemory.simps) simp
  with Nil show ?case by (intro exI [of _ c] exI [of _ 0]) simp
next
  case (Cons x xs)
  show ?case
  proof (cases "memoryUsage c > maxMemoryUsage c \<and> len c > 0")
    case False
    then have "evictWhileOverMemory S n c = Some (n, c)"
      by (subst evictWhileOverMemory.simps) auto
    with Cons.prems show ?thesis by (intro exI [of _ c] exI [of _ 0]) simp
  next
    case True
    then have u: "evictWhileOverMemory S n c = evictWhileOverMemory S (n + 1) (evict S c)"
      by (subst evictWhileOverMemory.simps) simp
    note ev = evict_inv [OF Cons.prems, of S]
    from Cons.IH [OF ev(1), of "n + 1"] obtain c' k where
      r: "evictWhileOverMemory S (n + 1) (evict S c) = Some (n + 1 + int k, c')"
      and i: "cache_inv c' (drop k xs)" and kl: "k \<le> length xs"
      and m: "maxSize c' = maxSize c" "maxMemoryUsage c' = maxMemoryUsage c"
        "evictionPolicy c' = evictionPolicy c"
      and pay: "same_payload (evict S c) c'"
      and st: "EvictedKeys (stats c') = EvictedKeys (stats (evict S c)) + k"
      by auto
    have "same_payload c c'" using same_payload_evict pay by (rule same_payload_trans)
    moreover have "EvictedKeys (stats (evict S c)) = EvictedKeys (stats c) + 1"
      by (simp add: ev(2))
    ultimately show ?thesis
      using r i kl m st by (intro exI [of _ c'] exI [of _ "Suc k"]) (simp add: u)
  qed
qed

lemma evictWhileOverSize_returns:
  assumes "cache_inv c xs" and "0 \<le> maxSize c"
  shows "\<exists>c'. evictWhileOverSize S n c =
             Some (n + int (length xs - nat (maxSize c)), c')
           \<and> cache_inv c' (drop (length xs - nat (maxSize c)) xs)
           \<and> maxSize c' = maxSize c \<and> maxMemoryUsage c' = maxMemoryUsage c
           \<and> evictionPolicy c' = evictionPolicy c
           \<and> memoryUsage c' = (if maxMemoryUsage c \<noteq> NoMaxMemoryUsage
                then memoryUsage c - (\<Sum>p\<leftarrow>take (length xs - nat (maxSize c)) xs. SizeInBytes S (store c p))
                else memoryUsage c)
           \<and> EvictedKeys (stats c') = EvictedKeys (stats c) + (length xs - nat (maxSize c))
           \<and> same_payload c c'"
  using assms
proof (induction xs arbitrary: c n)
  case Nil
  then have "len c = 0" by (simp add: cache_inv_len)
  with Nil have "evictWhileOverSize S n c = Some (n, c)"
    by (subst evictWhileOverSize.simps) simp
  with Nil show ?case by simp
next
  case (Cons x xs)
  have l: "len c = int (length (x # xs))" using Cons.prems(1) by (rule cache_inv_len)
  show ?case
  proof (cases "len c > maxSize c")
    case False
    then have "evictWhileOverSize S n c = Some (n, c)"
      by (subst evictWhileOverSize.simps) auto
    moreover from False l Cons.prems(2) have "length (x # xs) - nat (maxSize c) = 0" by simp
    ultimately show ?thesis using Cons.prems by simp
  next
    case True
    then have u: "evictWhileOverSize S n c = evictWhileOverSize S (n + 1) (evict S c)"
      by (subst evictWhileOverSize.simps) simp
    note ev = evict_inv [OF Cons.prems(1), of S]
    from True l Cons.prems(2) have k: "Suc (length xs) - nat (maxSize c) = Suc (length xs - nat (maxSize c))"
      by (simp add: Suc_diff_le nat_le_iff)
    from Cons.IH [OF ev(1), of "n + 1"] Cons.prems(2) obtain c' where
      r: "evictWhileOverSize S (n + 1) (evict S c) = Some (n + 1 + int (length xs - nat (maxSize c)), c')"
      and i: "cache_inv c' (drop (length xs - nat (maxSize c)) xs)"
      and m: "maxSize c' = maxSize c" "maxMemoryUsage c' = maxMemoryUsage c" "evictionPolicy c' = evictionPolicy c"
      and mem: "memoryUsage c' = (if maxMemoryUsage c \<noteq> NoMaxMemoryUsage
                then memoryUsage (evict S c) - (\<Sum>p\<leftarrow>take (length xs - nat (maxSize c)) xs. SizeInBytes S (store (evict S c) p))
                else memoryUsage (evict S c))"
      and st: "EvictedKeys (stats c') = EvictedKeys (stats (evict S c)) + (length xs - nat (maxSize c))"
      and pay: "same_payload (evict S c) c'"
      by auto
    have pay': "same_payload c c'" using same_payload_evict pay by (rule same_payload_trans)
    have sz: "\<And>p. SizeInBytes S (store (evict S c) p) = SizeInBytes S (store c p)"
      by (simp add: ev(2) SizeInBytes_def remove_refs_payload)
    show ?thesis
      using r i m mem st pay'
      by (simp add: u k sz) (simp add: ev(2))
  qed
qed



lemma evictWhileOverMemory_preserves:
  "evictWhileOverMemory S n c = Some y \<Longrightarrow> P c \<Longrightarrow> (\<forall>d. P d \<longrightarrow> P (evict S d))
   \<Longrightarrow> P (snd y)"
proof (induction S n c y rule: evictWhileOverMemory.raw_induct [rotated 1, consumes 1])
  case (1 evictWhileOverMemory S n c y)
  show ?case
  proof (cases "memoryUsage c > maxMemoryUsage c \<and> len c > 0")
    case True
    with 1(2) have "evictWhileOverMemory S (n + 1) (evict S c) = Some y" by simp
    moreover have "P (evict S c)" using 1(3,4) by blast
    ultimately show ?thesis using 1(4) by (rule 1(1))
  next
    case False
    with 1(2,3) show ?thesis by auto
  qed
qed

lemma evictWhileOverSize_preserves:
  "evictWhileOverSize S n c = Some y \<Longrightarrow> P c \<Longrightarrow> (\<forall>d. P d \<longrightarrow> P (evict S d))
   \<Longrightarrow> P (snd y)"
proof (induction S n c y rule: evictWhileOverSize.raw_induct [rotated 1, consumes 1])
  case (1 evictWhileOverSize S n c y)
  show ?case
  proof (cases "len c > maxSize c")
    case True
    with 1(2) have "evictWhileOverSize S (n + 1) (evict S c) = Some y" by simp
    moreover have "P (evict S c)" using 1(3,4) by blast
    ultimately show ?thesis using 1(4) by (rule 1(1))
  next
    case False
    with 1(2,3) show ?thesis by auto
  qed
qed

subsection \<open>The write path\<close>

lemma SetWithTTL_stages:
  "SetWithTTL S t0 t1 key val ttl c =
     (case entries c key of
        None \<Rightarrow>
          if ttl \<noteq> NoExpiration \<and> ttl < 0 then Some c
          else enforceBounds S (setExpiration t1 ttl (fresh c) (insertEntry S t0 key val c))
      | Some entry \<Rightarrow> enforceBounds S (setExpiration t1 ttl entry (updateEntry S val entry c)))"
  by (simp add: SetWithTTL_def get_def insertEntry_def updateEntry_def setExpiration_def
      enforceBounds_def Let_def split: option.splits)

lemma cache_inv_store_upd:
  assumes "Key e' = Key (store c p)" and "previous e' = previous (store c p)"
    and "nxt e' = nxt (store c p)"
  shows "cache_inv (c\<lparr>store := (store c)(p := e')\<rparr>) xs = cache_inv c xs"
proof -
  have "seg ((store c)(p := e')) None xs None = seg (store c) None xs None"
    using assms by (intro seg_cong) auto
  moreover have "\<And>q. Key (((store c)(p := e')) q) = Key (store c q)"
    using assms by simp
  ultimately show ?thesis
    by (simp add: cache_inv_def dll_def indexed_def)
qed

lemma setExpiration_inv [simp]:
  "cache_inv (setExpiration t1 ttl e c) xs = cache_inv c xs"
  unfolding setExpiration_def by (rule cache_inv_store_upd) simp_all

lemma setExpiration_fields [simp]:
  "entries (setExpiration t1 ttl e c) = entries c"
  "maxSize (setExpiration t1 ttl e c) = maxSize c"
  "maxMemoryUsage (setExpiration t1 ttl e c) = maxMemoryUsage c"
  "evictionPolicy (setExpiration t1 ttl e c) = evictionPolicy c"
  "memoryUsage (setExpiration t1 ttl e c) = memoryUsage c"
  "stats (setExpiration t1 ttl e c) = stats c"
  "len (setExpiration t1 ttl e c) = len c"
  by (simp_all add: setExpiration_def len_def)

lemma insertEntry_fields [simp]:
  "entries (insertEntry S t0 key val c) = (entries c)(key \<mapsto> fresh c)"
  "maxSize (insertEntry S t0 key val c) = maxSize c"
  "maxMemoryUsage (insertEntry S t0 key val c) = maxMemoryUsage c"
  "evictionPolicy (insertEntry S t0 key val c) = evictionPolicy c"
  "stats (insertEntry S t0 key val c) = stats c"
  "fresh (insertEntry S t0 key val c) = Suc (fresh c)"
  "head (insertEntry S t0 key val c) = Some (fresh c)"
  "tail (insertEntry S t0 key val c) = (case head c of None \<Rightarrow> Some (fresh c) | Some h \<Rightarrow> tail c)"
  by (simp_all add: insertEntry_def Let_def split: option.splits)

lemma insertEntry_store:
  "store (insertEntry S t0 key val c) =
     (case head c of
        None \<Rightarrow> (store c)(fresh c := \<lparr>Key = key, Value = val, RelevantTimestamp = t0,
                     Expiration = 0, previous = head c, nxt = None\<rparr>)
      | Some h \<Rightarrow> ((store c)(fresh c := \<lparr>Key = key, Value = val, RelevantTimestamp = t0,
                     Expiration = 0, previous = head c, nxt = None\<rparr>))
            (h := (((store c)(fresh c := \<lparr>Key = key, Value = val, RelevantTimestamp = t0,
                     Expiration = 0, previous = head c, nxt = None\<rparr>)) h)\<lparr>nxt := Some (fresh c)\<rparr>))"
  by (simp add: insertEntry_def Let_def split: option.splits)

lemma insertEntry_inv:
  assumes "cache_inv c xs" and "entries c key = None"
  shows "cache_inv (insertEntry S t0 key val c) (xs @ [fresh c])"
proof -
  let ?c' = "insertEntry S t0 key val c" and ?e = "fresh c"
  let ?E = "\<lparr>Key = key, Value = val, RelevantTimestamp = t0, Expiration = 0,
             previous = head c, nxt = None\<rparr>"
  from assms have d: "dll c xs" and i: "indexed c xs" and f: "\<forall>q\<in>set xs. q < fresh c"
    by (auto simp: cache_inv_def)
  from f have nin: "?e \<notin> set xs" by auto
  from d have dist: "distinct xs" and s: "seg (store c) None xs None"
    and t: "tail c = first_of xs" and h: "head c = last_of xs"
    by (simp_all add: dll_def)
  have "seg (case last_of xs of None \<Rightarrow> (store c)(?e := ?E)
              | Some h \<Rightarrow> ((store c)(?e := ?E))(h := (((store c)(?e := ?E)) h)\<lparr>nxt := Some ?e\<rparr>))
           None (xs @ [?e]) None"
    using s nin dist h by (intro seg_snoc) simp_all
  then have "seg (store ?c') None (xs @ [?e]) None"
    by (simp add: insertEntry_store h)
  moreover have "tail ?c' = first_of (xs @ [?e])"
    using t h by (cases xs) (auto simp: last_of_def split: option.splits)
  ultimately have "dll ?c' (xs @ [?e])"
    using dist nin by (simp add: dll_def last_of_append)
  moreover have keys: "\<And>q. q \<noteq> ?e \<Longrightarrow> Key (store ?c' q) = Key (store c q)"
    and knew: "Key (store ?c' ?e) = key"
    using h nin by (auto simp: insertEntry_store split: option.splits dest: last_of_mem)
  have "indexed ?c' (xs @ [?e])"
    unfolding indexed_def
  proof (intro allI)
    fix k p
    show "(entries ?c' k = Some p) = (p \<in> set (xs @ [?e]) \<and> Key (store ?c' p) = k)"
    proof (cases "p = ?e")
      case True
      have "entries c k \<noteq> Some ?e" using nin indexed_mem [OF i, of k ?e] by auto
      with True knew show ?thesis by auto
    next
      case False
      have "entries c k = Some p \<longleftrightarrow> p \<in> set xs \<and> Key (store c p) = k"
        using i by (simp add: indexed_def)
      moreover have "entries c k = Some p \<Longrightarrow> k \<noteq> key" using assms(2) by auto
      ultimately show ?thesis using False keys [OF False] by auto
    qed
  qed
  moreover have "\<forall>q\<in>set (xs @ [?e]). q < fresh ?c'"
    using f by (auto simp: less_Suc_eq)
  ultimately show ?thesis by (simp add: cache_inv_def)
qed

lemma updateEntry_fields [simp]:
  "entries (updateEntry S val e c) = entries c"
  "maxSize (updateEntry S val e c) = maxSize c"
  "maxMemoryUsage (updateEntry S val e c) = maxMemoryUsage c"
  "evictionPolicy (updateEntry S val e c) = evictionPolicy c"
  "stats (updateEntry S val e c) = stats c"
  by (simp_all add: updateEntry_def Let_def)

lemma move_to_head_inv:
  assumes "cache_inv c xs" and "p \<in> set xs"
  shows "cache_inv (moveExistingEntryToHead p c) (remove1 p xs @ [p])"
proof -
  from assms have d: "dll c xs" and i: "indexed c xs" and f: "\<forall>q\<in>set xs. q < fresh c"
    by (auto simp: cache_inv_def)
  have "dll (moveExistingEntryToHead p c) (remove1 p xs @ [p])"
    by (rule move_to_head_dll_remove1 [OF d assms(2)])
  moreover have "set (remove1 p xs @ [p]) = set xs"
    using assms(2) d by (auto simp: dll_def)
  ultimately show ?thesis
    using i f by (simp add: cache_inv_def indexed_def move_to_head_payload)
qed

lemma updateEntry_inv:
  assumes "cache_inv c xs" and "p \<in> set xs"
  shows "cache_inv (updateEntry S val p c) (remove1 p xs @ [p])"
proof -
  have "cache_inv (c\<lparr>store := (store c)(p := (store c p)\<lparr>Value := val\<rparr>)\<rparr>) xs"
    using assms(1) by (subst cache_inv_store_upd) simp_all
  then show ?thesis
    using assms(2) by (auto simp: updateEntry_def Let_def intro!: move_to_head_inv)
qed




subsection \<open>Reads, deletion and expiration\<close>

lemma Get_expired:
  assumes "entries c key = Some p" and "Expired t0 (store c p)"
  shows "Get S t0 t1 key c =
           (fst (delete S key (c\<lparr>stats := (stats c)\<lparr>Hits := Hits (stats c) + 1\<rparr>\<rparr>)), None)"
  using assms by (simp add: Get_def get_def Let_def)





lemma Clear_inv: "cache_inv (Clear c) [] \<and> maxSize (Clear c) = maxSize c \<and> len (Clear c) = 0"
  by (simp add: Clear_def cache_inv_def dll_def indexed_def len_def)

lemma bounded_invI:
  "cache_inv c xs \<Longrightarrow> maxSize c \<noteq> NoMaxSize \<Longrightarrow> len c \<le> maxSize c \<Longrightarrow> bounded_inv c"
  by (auto simp: bounded_inv_def)

subsection \<open>Loading a snapshot\<close>

text \<open>
  Decoding into an empty map allocates one entry for each pair of the stream; the
  relinking loop chains the sorted slice from the tail to the head, and the two
  eviction loops then return.
\<close>

lemma Decode_fields [simp]:
  "fresh (Decode ps c) = fresh c + length ps"
  "head (Decode ps c) = head c"
  "tail (Decode ps c) = tail c"
  "maxSize (Decode ps c) = maxSize c"
  "maxMemoryUsage (Decode ps c) = maxMemoryUsage c"
  "evictionPolicy (Decode ps c) = evictionPolicy c"
  "memoryUsage (Decode ps c) = memoryUsage c"
  "stats (Decode ps c) = stats c"
  by (induction ps c rule: Decode.induct; simp)+

lemma Decode_store:
  "store (Decode ps c) a =
     (if fresh c \<le> a \<and> a < fresh c + length ps then exported (snd (ps ! (a - fresh c)))
      else store c a)"
proof (induction ps c rule: Decode.induct)
  case (1 c)
  then show ?case by auto
next
  case (2 k e rest c)
  show ?case
  proof (cases "a = fresh c")
    case True
    with 2 show ?thesis by simp
  next
    case False
    with 2 show ?thesis by (auto simp: nth_Cons')
  qed
qed

lemma Decode_entries_other:
  "k \<notin> fst ` set ps \<Longrightarrow> entries (Decode ps c) k = entries c k"
  by (induction ps c rule: Decode.induct) auto

lemma Decode_dom: "dom (entries (Decode ps c)) = dom (entries c) \<union> fst ` set ps"
  by (induction ps c rule: Decode.induct) auto

lemma Decode_lookup:
  assumes "distinct (map fst ps)" and "(k, e) \<in> set ps"
  shows "\<exists>p. entries (Decode ps c) k = Some p \<and> fresh c \<le> p \<and> p < fresh c + length ps
             \<and> store (Decode ps c) p = exported e"
  using assms
proof (induction ps c rule: Decode.induct)
  case (1 c)
  then show ?case by simp
next
  case (2 k0 e0 rest c)
  let ?c1 = "c\<lparr>store := (store c)(fresh c := exported e0),
               entries := (entries c)(k0 \<mapsto> fresh c), fresh := Suc (fresh c)\<rparr>"
  show ?case
  proof (cases "(k, e) = (k0, e0)")
    case True
    with 2(2) have "k \<notin> fst ` set rest" by auto
    then have "entries (Decode rest ?c1) k = Some (fresh c)"
      using True by (simp add: Decode_entries_other)
    moreover have "store (Decode rest ?c1) (fresh c) = exported e"
      using True by (simp add: Decode_store)
    ultimately show ?thesis by simp
  next
    case False
    with 2(2,3) have "distinct (map fst rest)" "(k, e) \<in> set rest" by auto
    from 2(1) [OF this] show ?thesis by auto
  qed
qed

lemma Decode_indexed_set:
  assumes "wf_snapshot ps"
    and "\<forall>k p. entries c k = Some p \<longleftrightarrow> p \<in> A \<and> Key (store c p) = k"
    and "\<forall>p\<in>A. p < fresh c"
    and "fst ` set ps \<inter> dom (entries c) = {}"
  shows "\<forall>k p. entries (Decode ps c) k = Some p \<longleftrightarrow>
           p \<in> A \<union> {fresh c ..< fresh c + length ps} \<and> Key (store (Decode ps c) p) = k"
  using assms
proof (induction ps c arbitrary: A rule: Decode.induct)
  case (1 c)
  then show ?case by simp
next
  case (2 k0 e0 rest c)
  let ?c1 = "c\<lparr>store := (store c)(fresh c := exported e0),
               entries := (entries c)(k0 \<mapsto> fresh c), fresh := Suc (fresh c)\<rparr>"
  from 2(2) have wf: "wf_snapshot rest" and k0: "Key e0 = k0" and nk: "k0 \<notin> fst ` set rest"
    by (auto simp: wf_snapshot_def)
  from 2(5) have none: "entries c k0 = None" by auto
  have nA: "fresh c \<notin> A" using 2(4) by auto
  have a: "\<forall>k p. entries ?c1 k = Some p \<longleftrightarrow> p \<in> insert (fresh c) A \<and> Key (store ?c1 p) = k"
  proof (intro allI)
    fix k p
    show "entries ?c1 k = Some p \<longleftrightarrow> p \<in> insert (fresh c) A \<and> Key (store ?c1 p) = k"
    proof (cases "p = fresh c")
      case True
      have "entries c k \<noteq> Some (fresh c)" using 2(3) nA by auto
      with True k0 show ?thesis by (auto simp: exported_def)
    next
      case False
      have "entries c k = Some p \<Longrightarrow> k \<noteq> k0" using none by auto
      with False 2(3) show ?thesis by auto
    qed
  qed
  have b: "\<forall>p\<in>insert (fresh c) A. p < fresh ?c1" using 2(4) by (auto simp: less_Suc_eq)
  have c: "fst ` set rest \<inter> dom (entries ?c1) = {}" using 2(5) nk by auto
  have seteq: "insert (fresh c) A \<union> {fresh ?c1 ..< fresh ?c1 + length rest}
      = A \<union> {fresh c ..< fresh c + length ((k0, e0) # rest)}"
    by auto
  have "\<forall>k p. entries (Decode rest ?c1) k = Some p \<longleftrightarrow>
           p \<in> insert (fresh c) A \<union> {fresh ?c1 ..< fresh ?c1 + length rest}
           \<and> Key (store (Decode rest ?c1) p) = k"
    by (rule 2(1) [OF wf a b c])
  then show ?case
    unfolding seteq Decode.simps .
qed

lemma relink_Cons: "relink S prev (e # es) c = relink S (Some e) es (relinkOne S prev e c)"
  by (simp add: relinkOne_def Let_def)

lemma relinkOne_fields [simp]:
  "entries (relinkOne S prev e c) = entries c"
  "maxSize (relinkOne S prev e c) = maxSize c"
  "maxMemoryUsage (relinkOne S prev e c) = maxMemoryUsage c"
  "evictionPolicy (relinkOne S prev e c) = evictionPolicy c"
  "stats (relinkOne S prev e c) = stats c"
  "fresh (relinkOne S prev e c) = fresh c"
  "head (relinkOne S prev e c) = Some e"
  "tail (relinkOne S prev e c) = (case prev of None \<Rightarrow> Some e | Some p \<Rightarrow> tail c)"
  by (simp_all add: relinkOne_def Let_def split: option.splits)

lemma relinkOne_store:
  "store (relinkOne S prev e c) =
     (case prev of None \<Rightarrow> store c
      | Some p \<Rightarrow> ((store c)(p := (store c p)\<lparr>nxt := Some e\<rparr>))
           (e := (((store c)(p := (store c p)\<lparr>nxt := Some e\<rparr>)) e)\<lparr>previous := Some p\<rparr>))"
  by (simp add: relinkOne_def Let_def split: option.splits)

lemma relinkOne_payload:
  "Key (store (relinkOne S prev e c) x) = Key (store c x)"
  "Value (store (relinkOne S prev e c) x) = Value (store c x)"
  "RelevantTimestamp (store (relinkOne S prev e c) x) = RelevantTimestamp (store c x)"
  "Expiration (store (relinkOne S prev e c) x) = Expiration (store c x)"
  by (auto simp: relinkOne_store split: option.splits)

lemma relinkOne_memory:
  "memoryUsage (relinkOne S prev e c) =
     (if maxMemoryUsage c \<noteq> NoMaxMemoryUsage then memoryUsage c + SizeInBytes S (store c e)
      else memoryUsage c)"
  by (auto simp: relinkOne_def Let_def SizeInBytes_def split: option.splits)

lemma relink_preserves:
  assumes "\<And>prev e c. f (relinkOne S prev e c) = f c"
  shows "f (relink S prev es c) = f c"
  by (induction es arbitrary: prev c) (simp_all add: relink_Cons assms del: relink.simps(2))

lemma relink_fields [simp]:
  "entries (relink S prev es c) = entries c"
  "maxSize (relink S prev es c) = maxSize c"
  "maxMemoryUsage (relink S prev es c) = maxMemoryUsage c"
  "evictionPolicy (relink S prev es c) = evictionPolicy c"
  "stats (relink S prev es c) = stats c"
  "fresh (relink S prev es c) = fresh c"
  by (rule relink_preserves, simp)+

lemma relink_payload:
  "Key (store (relink S prev es c) x) = Key (store c x)"
  "Value (store (relink S prev es c) x) = Value (store c x)"
  "RelevantTimestamp (store (relink S prev es c) x) = RelevantTimestamp (store c x)"
  "Expiration (store (relink S prev es c) x) = Expiration (store c x)"
  by (rule relink_preserves [where f = "\<lambda>c. Key (store c x)"],
      simp add: relinkOne_payload,
      rule relink_preserves [where f = "\<lambda>c. Value (store c x)"],
      simp add: relinkOne_payload,
      rule relink_preserves [where f = "\<lambda>c. RelevantTimestamp (store c x)"],
      simp add: relinkOne_payload,
      rule relink_preserves [where f = "\<lambda>c. Expiration (store c x)"],
      simp add: relinkOne_payload)

lemma SizeInBytes_payload:
  "Key e' = Key e \<Longrightarrow> Value e' = Value e \<Longrightarrow> SizeInBytes S e' = SizeInBytes S e"
  by (simp add: SizeInBytes_def)

lemma relink_memory:
  "memoryUsage (relink S prev es c) =
     (if maxMemoryUsage c \<noteq> NoMaxMemoryUsage
      then memoryUsage c + (\<Sum>p\<leftarrow>es. SizeInBytes S (store c p)) else memoryUsage c)"
proof (induction es arbitrary: prev c)
  case Nil
  then show ?case by simp
next
  case (Cons e es)
  have "\<And>p. SizeInBytes S (store (relinkOne S prev e c) p) = SizeInBytes S (store c p)"
    by (rule SizeInBytes_payload) (simp_all add: relinkOne_payload)
  then show ?case
    by (simp add: relink_Cons Cons relinkOne_memory del: relink.simps(2))
qed

lemma relink_dll:
  assumes "distinct (ds @ es)" and "seg (store c) None ds None"
    and "\<forall>p\<in>set es. previous (store c p) = None \<and> nxt (store c p) = None"
    and "tail c = first_of ds" and "head c = last_of ds"
  shows "dll (relink S (last_of ds) es c) (ds @ es)"
  using assms
proof (induction es arbitrary: ds c)
  case Nil
  then show ?case by (simp add: dll_def)
next
  case (Cons e es)
  let ?c2 = "relinkOne S (last_of ds) e c"
  let ?E = "(store c e)\<lparr>previous := last_of ds\<rparr>"
  from Cons.prems have nin: "e \<notin> set ds" and dist: "distinct ds" by auto
  from Cons.prems have le: "previous (store c e) = None" "nxt (store c e) = None" by auto
  have st: "store ?c2 = (case last_of ds of None \<Rightarrow> (store c)(e := ?E)
              | Some h \<Rightarrow> ((store c)(e := ?E))(h := (((store c)(e := ?E)) h)\<lparr>nxt := Some e\<rparr>))"
  proof (cases "last_of ds")
    case None
    with le show ?thesis by (simp add: relinkOne_store fun_eq_iff)
  next
    case (Some d)
    then have "d \<noteq> e" using nin by (auto dest: last_of_mem)
    with Some show ?thesis by (auto simp: relinkOne_store fun_eq_iff)
  qed
  have "seg (store ?c2) None (ds @ [e]) None"
    unfolding st using Cons.prems(2) nin dist le by (intro seg_snoc) simp_all
  moreover have "\<forall>p\<in>set es. previous (store ?c2 p) = None \<and> nxt (store ?c2 p) = None"
    using Cons.prems(1,3) by (auto simp: st split: option.splits dest: last_of_mem)
  moreover have "tail ?c2 = first_of (ds @ [e])"
    using Cons.prems(4) by (cases ds) (auto simp: last_of_def split: option.splits)
  moreover have "head ?c2 = last_of (ds @ [e])" by simp
  moreover have "distinct ((ds @ [e]) @ es)" using Cons.prems(1) by auto
  ultimately have "dll (relink S (last_of (ds @ [e])) es ?c2) ((ds @ [e]) @ es)"
    by (intro Cons.IH)
  then show ?case by (simp add: relink_Cons del: relink.simps(2))
qed

lemma ReadFromFile_Decoded:
  "ReadFromFile S (Decoded ps) order c =
     (let c2 = relinked S ps order c
      in if maxSize c2 = NoMaxSize \<and> maxMemoryUsage c2 = NoMaxMemoryUsage
         then Some (c2, 0, None)
         else
           (case (if maxSize c2 \<noteq> NoMaxSize \<and> len c2 > maxSize c2
                  then evictWhileOverSize S 0 c2 else Some (0, c2)) of
              None \<Rightarrow> None
            | Some (n1, c3) \<Rightarrow>
                (case (if maxMemoryUsage c3 \<noteq> NoMaxMemoryUsage
                          \<and> memoryUsage c3 > maxMemoryUsage c3
                       then evictWhileOverMemory S n1 c3 else Some (n1, c3)) of
                   None \<Rightarrow> None
                 | Some (n2, c4) \<Rightarrow> Some (c4, n2, None))))"
  by (simp add: ReadFromFile_def relinked_def sortedSlice_def Let_def)

lemma ranges_over_slice:
  assumes "ranges_over order m" and "\<forall>k p. m k = Some p \<longleftrightarrow> p \<in> A \<and> g p = k"
  shows "distinct (List.map_filter m order) \<and> set (List.map_filter m order) = A"
proof -
  from assms(1) have d: "distinct order" and s: "set order = dom m"
    by (simp_all add: ranges_over_def)
  have f: "filter (\<lambda>k. \<exists>y. m k = Some y) order = order"
    using s by (auto simp: filter_id_conv)
  have mf: "List.map_filter m order = map (the \<circ> m) order"
    by (simp add: List.map_filter_def f)
  have "inj_on (the \<circ> m) (set order)"
  proof (rule inj_onI)
    fix k k' assume "k \<in> set order" "k' \<in> set order" "(the \<circ> m) k = (the \<circ> m) k'"
    then obtain p where "m k = Some p" "m k' = Some p" using s by auto
    with assms(2) show "k = k'" by auto
  qed
  with d have "distinct (List.map_filter m order)" by (simp add: mf distinct_map)
  moreover have "set (List.map_filter m order) = A"
  proof
    show "set (List.map_filter m order) \<subseteq> A"
    proof
      fix p assume "p \<in> set (List.map_filter m order)"
      then obtain k where "k \<in> set order" "p = the (m k)" by (auto simp: mf)
      with s obtain q where "m k = Some q" "p = q" by auto
      with assms(2) show "p \<in> A" by auto
    qed
    show "A \<subseteq> set (List.map_filter m order)"
    proof
      fix p assume "p \<in> A"
      with assms(2) have "m (g p) = Some p" by auto
      then have "g p \<in> set order" "(the \<circ> m) (g p) = p" using s by auto
      then show "p \<in> set (List.map_filter m order)" unfolding mf by force
    qed
  qed
  ultimately show ?thesis ..
qed

lemma empty_cache_unlinked: "empty_cache c \<Longrightarrow> unlinked c"
  by (simp add: empty_cache_def unlinked_def)

lemma relinked_unlinked_inv:
  assumes "unlinked c" and "wf_snapshot ps"
    and "ranges_over order (entries (Decode ps c))"
  shows "cache_inv (relinked S ps order c) (sortedSlice order (Decode ps c))"
    and "set (sortedSlice order (Decode ps c)) = {fresh c ..< fresh c + length ps}"
    and "length (sortedSlice order (Decode ps c)) = length ps"
proof -
  let ?c1 = "Decode ps c" and ?es = "sortedSlice order (Decode ps c)"
  let ?A = "{fresh c ..< fresh c + length ps}"
  from assms(1) have e: "entries c = Map.empty" "head c = None" "tail c = None"
    by (simp_all add: unlinked_def)
  have ix: "\<forall>k p. entries ?c1 k = Some p \<longleftrightarrow> p \<in> ?A \<and> Key (store ?c1 p) = k"
    using Decode_indexed_set [OF assms(2), of c "{}"] e by simp
  from ranges_over_slice [OF assms(3) ix]
  have sl: "distinct (List.map_filter (entries ?c1) order)"
    "set (List.map_filter (entries ?c1) order) = ?A" by simp_all
  then have es: "distinct ?es" and "set ?es = ?A"
    by (simp_all add: sortedSlice_def)
  then show set_es: "set ?es = ?A" by simp
  from es set_es show "length ?es = length ps"
    by (metis card_atLeastLessThan diff_add_inverse distinct_card)
  have links: "\<forall>p\<in>set ?es. previous (store ?c1 p) = None \<and> nxt (store ?c1 p) = None"
    by (simp add: set_es Decode_store exported_def)
  have "dll (relink S (last_of []) ?es ?c1) ([] @ ?es)"
    using es links e by (intro relink_dll) simp_all
  then have "dll (relinked S ps order c) ?es" by (simp add: relinked_def)
  moreover have "indexed (relinked S ps order c) ?es"
    using ix by (simp add: indexed_def relinked_def relink_payload set_es)
  moreover have "\<forall>p\<in>set ?es. p < fresh (relinked S ps order c)"
    by (simp add: set_es relinked_def)
  ultimately show "cache_inv (relinked S ps order c) ?es" by (simp add: cache_inv_def)
qed

lemma relinked_inv:
  assumes "empty_cache c" and "wf_snapshot ps"
    and "ranges_over order (entries (Decode ps c))"
  shows "cache_inv (relinked S ps order c) (sortedSlice order (Decode ps c))"
    and "set (sortedSlice order (Decode ps c)) = {fresh c ..< fresh c + length ps}"
    and "length (sortedSlice order (Decode ps c)) = length ps"
  by (rule relinked_unlinked_inv [OF empty_cache_unlinked [OF assms(1)] assms(2,3)])+

lemma relinked_fields [simp]:
  "maxSize (relinked S ps order c) = maxSize c"
  "maxMemoryUsage (relinked S ps order c) = maxMemoryUsage c"
  "evictionPolicy (relinked S ps order c) = evictionPolicy c"
  "stats (relinked S ps order c) = stats c"
  "entries (relinked S ps order c) = entries (Decode ps c)"
  "fresh (relinked S ps order c) = fresh c + length ps"
  by (simp_all add: relinked_def)

lemma ReadFromFile_enforce:
  assumes inv: "cache_inv (relinked S ps order c) es" and nonneg: "0 \<le> maxSize c"
  shows "\<exists>c' k. ReadFromFile S (Decoded ps) order c = Some (c', int k, None)
           \<and> cache_inv c' (drop k es) \<and> k \<le> length es
           \<and> maxSize c' = maxSize c \<and> maxMemoryUsage c' = maxMemoryUsage c
           \<and> evictionPolicy c' = evictionPolicy c
           \<and> same_payload (relinked S ps order c) c'
           \<and> EvictedKeys (stats c') = EvictedKeys (stats c) + k
           \<and> (maxSize c \<noteq> NoMaxSize \<longrightarrow> length es - nat (maxSize c) \<le> k)
           \<and> (maxMemoryUsage c = NoMaxMemoryUsage \<longrightarrow>
                 k = (if maxSize c \<noteq> NoMaxSize then length es - nat (maxSize c) else 0))
           \<and> ((maxSize c \<noteq> NoMaxSize \<longrightarrow> int (length es) \<le> maxSize c)
                \<and> (maxMemoryUsage c \<noteq> NoMaxMemoryUsage \<longrightarrow>
                       memoryUsage (relinked S ps order c) \<le> maxMemoryUsage c)
                \<longrightarrow> k = 0)"
proof -
  define c2 where "c2 = relinked S ps order c"
  have cfg2: "maxSize c2 = maxSize c" "maxMemoryUsage c2 = maxMemoryUsage c"
    "evictionPolicy c2 = evictionPolicy c" "stats c2 = stats c"
    by (simp_all add: c2_def)
  have inv2: "cache_inv c2 es" using inv by (simp add: c2_def)
  have l2: "len c2 = int (length es)" using inv2 by (rule cache_inv_len)
  define k1 where "k1 = (if maxSize c \<noteq> NoMaxSize then length es - nat (maxSize c) else 0)"
  have size_part: "\<exists>c3. (if maxSize c2 \<noteq> NoMaxSize \<and> len c2 > maxSize c2
                  then evictWhileOverSize S 0 c2 else Some (0, c2)) = Some (int k1, c3)
        \<and> cache_inv c3 (drop k1 es)
        \<and> maxSize c3 = maxSize c \<and> maxMemoryUsage c3 = maxMemoryUsage c
        \<and> evictionPolicy c3 = evictionPolicy c \<and> same_payload c2 c3
        \<and> EvictedKeys (stats c3) = EvictedKeys (stats c) + k1
        \<and> (k1 = 0 \<longrightarrow> memoryUsage c3 = memoryUsage c2)"
  proof (cases "maxSize c2 \<noteq> NoMaxSize \<and> len c2 > maxSize c2")
    case True
    from evictWhileOverSize_returns [OF inv2, of S 0] nonneg cfg2 obtain c3 where
      "evictWhileOverSize S 0 c2 = Some (0 + int (length es - nat (maxSize c2)), c3)"
      "cache_inv c3 (drop (length es - nat (maxSize c2)) es)"
      "maxSize c3 = maxSize c2" "maxMemoryUsage c3 = maxMemoryUsage c2"
      "evictionPolicy c3 = evictionPolicy c2" "same_payload c2 c3"
      "EvictedKeys (stats c3) = EvictedKeys (stats c2) + (length es - nat (maxSize c2))"
      by auto
    moreover have "k1 = length es - nat (maxSize c2)" "k1 \<noteq> 0"
      using True l2 cfg2 nonneg by (auto simp: k1_def)
    ultimately show ?thesis using True cfg2 by (intro exI [of _ c3]) simp
  next
    case False
    then have "k1 = 0" using l2 cfg2 by (auto simp: k1_def)
    with False inv2 cfg2 show ?thesis by (intro exI [of _ c2]) auto
  qed
  then obtain c3 where
    s3: "(if maxSize c2 \<noteq> NoMaxSize \<and> len c2 > maxSize c2
          then evictWhileOverSize S 0 c2 else Some (0, c2)) = Some (int k1, c3)"
    and inv3: "cache_inv c3 (drop k1 es)"
    and cfg3: "maxSize c3 = maxSize c" "maxMemoryUsage c3 = maxMemoryUsage c"
      "evictionPolicy c3 = evictionPolicy c"
    and pay3: "same_payload c2 c3"
    and st3: "EvictedKeys (stats c3) = EvictedKeys (stats c) + k1"
    and mem3: "k1 = 0 \<longrightarrow> memoryUsage c3 = memoryUsage c2"
    by blast
  have mem_part: "\<exists>c4 k2. (if maxMemoryUsage c3 \<noteq> NoMaxMemoryUsage \<and> memoryUsage c3 > maxMemoryUsage c3
                  then evictWhileOverMemory S (int k1) c3 else Some (int k1, c3)) = Some (int k1 + int k2, c4)
        \<and> cache_inv c4 (drop k2 (drop k1 es)) \<and> k2 \<le> length (drop k1 es)
        \<and> maxSize c4 = maxSize c \<and> maxMemoryUsage c4 = maxMemoryUsage c
        \<and> evictionPolicy c4 = evictionPolicy c \<and> same_payload c3 c4
        \<and> EvictedKeys (stats c4) = EvictedKeys (stats c3) + k2
        \<and> (maxMemoryUsage c = NoMaxMemoryUsage \<or> memoryUsage c3 \<le> maxMemoryUsage c \<longrightarrow> k2 = 0)"
  proof (cases "maxMemoryUsage c3 \<noteq> NoMaxMemoryUsage \<and> memoryUsage c3 > maxMemoryUsage c3")
    case True
    from evictWhileOverMemory_returns [OF inv3, of S "int k1"] obtain c4 k2 where
      "evictWhileOverMemory S (int k1) c3 = Some (int k1 + int k2, c4)"
      "cache_inv c4 (drop k2 (drop k1 es))" "k2 \<le> length (drop k1 es)"
      "maxSize c4 = maxSize c3" "maxMemoryUsage c4 = maxMemoryUsage c3"
      "evictionPolicy c4 = evictionPolicy c3" "same_payload c3 c4"
      "EvictedKeys (stats c4) = EvictedKeys (stats c3) + k2"
      by blast
    with True cfg3 show ?thesis by (intro exI [of _ c4] exI [of _ k2]) auto
  next
    case False
    with inv3 cfg3 show ?thesis by (intro exI [of _ c3] exI [of _ 0]) auto
  qed
  then obtain c4 k2 where
    s4: "(if maxMemoryUsage c3 \<noteq> NoMaxMemoryUsage \<and> memoryUsage c3 > maxMemoryUsage c3
          then evictWhileOverMemory S (int k1) c3 else Some (int k1, c3)) = Some (int k1 + int k2, c4)"
    and inv4: "cache_inv c4 (drop k2 (drop k1 es))" and k2: "k2 \<le> length (drop k1 es)"
    and cfg4: "maxSize c4 = maxSize c" "maxMemoryUsage c4 = maxMemoryUsage c"
      "evictionPolicy c4 = evictionPolicy c"
    and pay4: "same_payload c3 c4"
    and st4: "EvictedKeys (stats c4) = EvictedKeys (stats c3) + k2"
    and z4: "maxMemoryUsage c = NoMaxMemoryUsage \<or> memoryUsage c3 \<le> maxMemoryUsage c \<longrightarrow> k2 = 0"
    by blast
  show ?thesis
  proof (cases "maxSize c2 = NoMaxSize \<and> maxMemoryUsage c2 = NoMaxMemoryUsage")
    case True
    then have "ReadFromFile S (Decoded ps) order c = Some (c2, 0, None)"
      by (simp add: ReadFromFile_Decoded c2_def [symmetric])
    with True inv2 cfg2 show ?thesis
      by (intro exI [of _ c2] exI [of _ 0]) (simp add: c2_def)
  next
    case False
    then have "ReadFromFile S (Decoded ps) order c = Some (c4, int k1 + int k2, None)"
      by (simp add: ReadFromFile_Decoded c2_def [symmetric] Let_def s3 s4 del: if_split)
         (auto simp: s3 s4)
    moreover have "cache_inv c4 (drop (k1 + k2) es)" using inv4 by (simp add: add.commute)
    moreover have "same_payload c2 c4" using pay3 pay4 by (rule same_payload_trans)
    moreover have "k1 + k2 \<le> length es" using k2 by (auto simp: k1_def)
    moreover have "(maxSize c \<noteq> NoMaxSize \<longrightarrow> int (length es) \<le> maxSize c)
                \<and> (maxMemoryUsage c \<noteq> NoMaxMemoryUsage \<longrightarrow> memoryUsage c2 \<le> maxMemoryUsage c)
                \<longrightarrow> k1 + k2 = 0"
      using z4 mem3 by (auto simp: k1_def)
    ultimately show ?thesis
      using cfg4 st3 st4 z4
      by (intro exI [of _ c4] exI [of _ "k1 + k2"]) (auto simp: c2_def k1_def)
  qed
qed

lemma unlinked_ranges_over:
  assumes "unlinked c" and "distinct order" and "set order = fst ` set ps"
  shows "ranges_over order (entries (Decode ps c))"
  using assms by (simp add: ranges_over_def Decode_dom unlinked_def)

lemma empty_ranges_over:
  assumes "empty_cache c" and "distinct order" and "set order = fst ` set ps"
  shows "ranges_over order (entries (Decode ps c))"
  by (rule unlinked_ranges_over [OF empty_cache_unlinked [OF assms(1)] assms(2,3)])

lemma Decode_index_empty:
  assumes "empty_cache c" and "wf_snapshot ps"
  shows "entries (Decode ps c) k = Some p \<longleftrightarrow>
           p \<in> {fresh c ..< fresh c + length ps} \<and> Key (store (Decode ps c) p) = k"
  using Decode_indexed_set [OF assms(2), of c "{}"] assms(1) by (simp add: empty_cache_def)

lemma same_payload_relinked: "same_payload (Decode ps c) (relinked S ps order c)"
  by (simp add: same_payload_def relinked_def relink_payload)

lemma sorted_sortedSlice:
  "sorted (map (\<lambda>p. RelevantTimestamp (store c1 p)) (sortedSlice order c1))"
  by (simp add: sortedSlice_def)

lemma sorted_take_drop:
  assumes "sorted (map f es)" and "x \<in> set (take k es)" and "y \<in> set (drop k es)"
  shows "f x \<le> f y"
proof -
  have "sorted (map f (take k es) @ map f (drop k es))"
    using assms(1) by (simp flip: map_append)
  with assms(2,3) show ?thesis by (auto simp: sorted_append)
qed


lemma ReadFromFile_preserves:
  assumes "ReadFromFile S (Decoded ps) order c = Some (c', n, e)"
    and "P (relinked S ps order c)" and "\<forall>d. P d \<longrightarrow> P (evict S d)"
  shows "P c'"
proof -
  define c2 where "c2 = relinked S ps order c"
  show ?thesis
  proof (cases "maxSize c2 = NoMaxSize \<and> maxMemoryUsage c2 = NoMaxMemoryUsage")
    case True
    with assms(1) have "c' = c2"
      by (simp add: ReadFromFile_Decoded c2_def [symmetric] Let_def)
    with assms(2) show ?thesis by (simp add: c2_def)
  next
    case False
    with assms(1) obtain n1 c3 where
      s: "(if maxSize c2 \<noteq> NoMaxSize \<and> len c2 > maxSize c2
           then evictWhileOverSize S 0 c2 else Some (0, c2)) = Some (n1, c3)"
      and t: "(if maxMemoryUsage c3 \<noteq> NoMaxMemoryUsage \<and> memoryUsage c3 > maxMemoryUsage c3
               then evictWhileOverMemory S n1 c3 else Some (n1, c3)) = Some (n, c')"
      by (auto simp: ReadFromFile_Decoded c2_def [symmetric] Let_def split: option.splits if_splits)
    have "P c3"
    proof (cases "maxSize c2 \<noteq> NoMaxSize \<and> len c2 > maxSize c2")
      case True
      with s have "evictWhileOverSize S 0 c2 = Some (n1, c3)" by simp
      from evictWhileOverSize_preserves [OF this, of P] assms(2,3) show ?thesis
        by (simp add: c2_def)
    next
      case False
      with s assms(2) show ?thesis by (auto simp: c2_def)
    qed
    show ?thesis
    proof (cases "maxMemoryUsage c3 \<noteq> NoMaxMemoryUsage \<and> memoryUsage c3 > maxMemoryUsage c3")
      case True
      with t have "evictWhileOverMemory S n1 c3 = Some (n, c')" by simp
      from evictWhileOverMemory_preserves [OF this, of P] \<open>P c3\<close> assms(3) show ?thesis
        by simp
    next
      case False
      with t \<open>P c3\<close> show ?thesis by auto
    qed
  qed
qed

lemma load_unlinked_inv:
  assumes "unlinked c" and "wf_snapshot ps" and "distinct order"
    and "set order = fst ` set ps" and "0 \<le> maxSize c"
  shows "\<exists>c' n ys. ReadFromFile S (Decoded ps) order c = Some (c', n, None)
           \<and> cache_inv c' ys \<and> maxSize c' = maxSize c"
proof -
  note ro = unlinked_ranges_over [OF assms(1,3,4)]
  note ri = relinked_unlinked_inv(1) [OF assms(1,2) ro, where S = S]
  from ReadFromFile_enforce [OF ri assms(5)] show ?thesis by blast
qed

lemma load_into_empty_inv:
  assumes "empty_cache c" and "wf_snapshot ps" and "distinct order"
    and "set order = fst ` set ps" and "0 \<le> maxSize c"
  shows "\<exists>c' n ys. ReadFromFile S (Decoded ps) order c = Some (c', n, None)
           \<and> cache_inv c' ys \<and> maxSize c' = maxSize c"
  by (rule load_unlinked_inv [OF empty_cache_unlinked [OF assms(1)] assms(2-5)])



lemma sortedSlice_ends [simp]:
  "sortedSlice order (c\<lparr>head := h, tail := t\<rparr>) = sortedSlice order c"
  by (simp add: sortedSlice_def)






subsection \<open>Saving and loading again\<close>

lemma exported_idem [simp]: "exported (exported e) = exported e"
  by (simp add: exported_def)

lemma exported_payload [simp]:
  "Key (exported e) = Key e" "Value (exported e) = Value e"
  "RelevantTimestamp (exported e) = RelevantTimestamp e" "Expiration (exported e) = Expiration e"
  "previous (exported e) = None" "nxt (exported e) = None"
  by (simp_all add: exported_def)

lemma SizeInBytes_exported [simp]: "SizeInBytes S (exported e) = SizeInBytes S e"
  by (simp add: SizeInBytes_def)

lemma encodeEntries_map:
  assumes "set order \<subseteq> dom (entries c)"
  shows "encodeEntries order c = map (\<lambda>k. (k, exported (store c (the (entries c k))))) order"
  using assms
proof (induction order)
  case Nil
  then show ?case by (simp add: encodeEntries_def List.map_filter_def)
next
  case (Cons k ks)
  then obtain p where "entries c k = Some p" by auto
  with Cons show ?case by (simp add: encodeEntries_def List.map_filter_def)
qed

lemma encodeEntries_facts:
  assumes "cache_inv c xs" and "ranges_over order (entries c)"
  shows "wf_snapshot (encodeEntries order c)"
    and "fst ` set (encodeEntries order c) = dom (entries c)"
    and "snd ` set (encodeEntries order c) = (\<lambda>p. exported (store c p)) ` set xs"
    and "length (encodeEntries order c) = length xs"
proof -
  from assms(1) have i: "indexed c xs" and d: "distinct xs" by (auto simp: cache_inv_def dll_def)
  from assms(2) have o: "distinct order" "set order = dom (entries c)"
    by (simp_all add: ranges_over_def)
  have m: "encodeEntries order c = map (\<lambda>k. (k, exported (store c (the (entries c k))))) order"
    by (rule encodeEntries_map) (simp add: o)
  have key: "\<And>k. k \<in> set order \<Longrightarrow> Key (store c (the (entries c k))) = k"
    using i o by (auto dest: indexed_mem)
  show "wf_snapshot (encodeEntries order c)"
    using o key by (auto simp: wf_snapshot_def m comp_def)
  show "fst ` set (encodeEntries order c) = dom (entries c)"
    using o by (force simp: m)
  show "snd ` set (encodeEntries order c) = (\<lambda>p. exported (store c p)) ` set xs"
  proof
    show "snd ` set (encodeEntries order c) \<subseteq> (\<lambda>p. exported (store c p)) ` set xs"
    proof
      fix e assume "e \<in> snd ` set (encodeEntries order c)"
      then obtain k where k: "k \<in> set order" "e = exported (store c (the (entries c k)))"
        by (auto simp: m)
      with o obtain p where "entries c k = Some p" by auto
      with i k show "e \<in> (\<lambda>p. exported (store c p)) ` set xs" by (auto dest: indexed_mem)
    qed
    show "(\<lambda>p. exported (store c p)) ` set xs \<subseteq> snd ` set (encodeEntries order c)"
    proof
      fix e assume "e \<in> (\<lambda>p. exported (store c p)) ` set xs"
      then obtain p where p: "p \<in> set xs" "e = exported (store c p)" by auto
      with i have "entries c (Key (store c p)) = Some p" by (simp add: indexed_lookup)
      then have "Key (store c p) \<in> set order" "the (entries c (Key (store c p))) = p"
        using o by auto
      with p show "e \<in> snd ` set (encodeEntries order c)" by (force simp: m)
    qed
  qed
  have "length (encodeEntries order c) = card (dom (entries c))"
    using o by (simp add: m flip: distinct_card)
  also have "int \<dots> = int (length xs)" using cache_inv_len [OF assms(1)] by (simp add: len_def)
  finally show "length (encodeEntries order c) = length xs" by simp
qed

lemma Decode_store_image:
  assumes "distinct (map fst ps)"
  shows "store (Decode ps c) ` {fresh c ..< fresh c + length ps} = exported ` snd ` set ps"
proof
  show "store (Decode ps c) ` {fresh c ..< fresh c + length ps} \<subseteq> exported ` snd ` set ps"
  proof
    fix e assume "e \<in> store (Decode ps c) ` {fresh c ..< fresh c + length ps}"
    then obtain p where p: "fresh c \<le> p" "p < fresh c + length ps" "e = store (Decode ps c) p"
      by auto
    then have "e = exported (snd (ps ! (p - fresh c)))" by (simp add: Decode_store)
    moreover have "ps ! (p - fresh c) \<in> set ps" using p by (intro nth_mem) auto
    ultimately show "e \<in> exported ` snd ` set ps" by auto
  qed
  show "exported ` snd ` set ps \<subseteq> store (Decode ps c) ` {fresh c ..< fresh c + length ps}"
  proof
    fix e assume "e \<in> exported ` snd ` set ps"
    then obtain k e0 where m: "(k, e0) \<in> set ps" "e = exported e0" by force
    from Decode_lookup [OF assms m(1), of c] obtain p where
      "fresh c \<le> p" "p < fresh c + length ps" "store (Decode ps c) p = exported e0" by blast
    with m show "e \<in> store (Decode ps c) ` {fresh c ..< fresh c + length ps}" by force
  qed
qed

lemma sorted_same_set_eq:
  fixes t :: "'a \<Rightarrow> int"
  assumes "sorted_wrt (<) (map t X)" and "sorted (map t E)" and "set E = set X"
    and "length E = length X"
  shows "E = X"
proof -
  have dX: "distinct (map t X)" using assms(1) by (simp add: strict_sorted_iff)
  then have inj: "inj_on t (set X)" and distX: "distinct X" by (simp_all add: distinct_map)
  have "card (set E) = length E" using assms(3,4) distX by (simp add: distinct_card)
  then have distE: "distinct E" by (rule card_distinct)
  have dE: "distinct (map t E)" using distE inj assms(3) by (simp add: distinct_map)
  have sX: "sorted (map t X)" using assms(1) by (simp add: strict_sorted_iff)
  have "map t E = map t X"
    using assms(2) dE sX dX assms(3) by (intro sorted_distinct_set_unique) simp_all
  moreover have "inj_on t (set E \<union> set X)" using inj assms(3) by simp
  ultimately show ?thesis by (simp add: inj_on_map_eq_map)
qed

lemma round_trip_order:
  assumes inv: "cache_inv c xs"
    and ord: "sorted_wrt (<) (map (\<lambda>p. RelevantTimestamp (store c p)) xs)"
    and ro: "ranges_over order (entries c)"
    and emp: "empty_cache c0"
    and ro': "distinct order'" "set order' = dom (entries c)"
  shows "map (store (Decode (encodeEntries order c) c0))
             (sortedSlice order' (Decode (encodeEntries order c) c0))
         = map (\<lambda>p. exported (store c p)) xs"
proof -
  let ?ps = "encodeEntries order c"
  let ?c1 = "Decode ?ps c0" and ?es = "sortedSlice order' (Decode ?ps c0)"
  note ef = encodeEntries_facts [OF inv ro]
  have ro1: "ranges_over order' (entries ?c1)"
    using emp ro' ef(2) by (intro empty_ranges_over) simp_all
  note ri = relinked_inv(2) [OF emp ef(1) ro1] relinked_inv(3) [OF emp ef(1) ro1]
  have "set (map (store ?c1) ?es) = store ?c1 ` {fresh c0 ..< fresh c0 + length ?ps}"
    by (simp add: ri(1))
  also have "\<dots> = exported ` snd ` set ?ps"
    using ef(1) by (intro Decode_store_image) (simp add: wf_snapshot_def)
  also have "\<dots> = set (map (\<lambda>p. exported (store c p)) xs)"
    by (simp add: ef(3) image_image)
  finally have s: "set (map (store ?c1) ?es) = set (map (\<lambda>p. exported (store c p)) xs)" .
  show ?thesis
  proof (rule sorted_same_set_eq [where t = RelevantTimestamp])
    show "sorted_wrt (<) (map RelevantTimestamp (map (\<lambda>p. exported (store c p)) xs))"
      using ord by (simp add: comp_def)
    show "sorted (map RelevantTimestamp (map (store ?c1) ?es))"
      using sorted_sortedSlice [of ?c1 order'] by (simp add: comp_def)
    show "set (map (store ?c1) ?es) = set (map (\<lambda>p. exported (store c p)) xs)" by (rule s)
    show "length (map (store ?c1) ?es) = length (map (\<lambda>p. exported (store c p)) xs)"
      by (simp add: ri(2) ef(4))
  qed
qed

lemma map_option_ends:
  assumes "map f es = map g xs"
  shows "map_option f (last_of es) = map_option g (last_of xs)"
    and "map_option f (first_of es) = map_option g (first_of xs)"
proof -
  from assms have l: "length es = length xs" by (rule map_eq_imp_length_eq)
  show "map_option f (last_of es) = map_option g (last_of xs)"
  proof (cases "es = []")
    case True
    with l show ?thesis by simp
  next
    case False
    with l have "xs \<noteq> []" by auto
    with False assms show ?thesis
      by (simp add: last_of_def) (metis last_map)
  qed
  show "map_option f (first_of es) = map_option g (first_of xs)"
    using assms by (cases es; cases xs) auto
qed

lemma round_trip_image:
  assumes inv: "cache_inv c xs"
    and ro: "ranges_over order (entries c)"
    and emp: "empty_cache c0"
    and ro': "distinct order'" "set order' = dom (entries c)"
  shows "store (Decode (encodeEntries order c) c0)
           ` set (sortedSlice order' (Decode (encodeEntries order c) c0))
         = (\<lambda>p. exported (store c p)) ` set xs"
    and "distinct (sortedSlice order' (Decode (encodeEntries order c) c0))"
    and "inj_on (store (Decode (encodeEntries order c) c0))
           (set (sortedSlice order' (Decode (encodeEntries order c) c0)))"
    and "inj_on (\<lambda>p. exported (store c p)) (set xs)"
proof -
  let ?ps = "encodeEntries order c"
  let ?c1 = "Decode ?ps c0" and ?es = "sortedSlice order' (Decode ?ps c0)"
  note ef = encodeEntries_facts [OF inv ro]
  have ro1: "ranges_over order' (entries ?c1)"
    using emp ro' ef(2) by (intro empty_ranges_over) simp_all
  note ri = relinked_inv(3) [OF emp ef(1) ro1] relinked_inv(2) [OF emp ef(1) ro1]
  have "store ?c1 ` set ?es = store ?c1 ` {fresh c0 ..< fresh c0 + length ?ps}"
    by (simp add: ri(2))
  also have "\<dots> = exported ` snd ` set ?ps"
    using ef(1) by (intro Decode_store_image) (simp add: wf_snapshot_def)
  also have "\<dots> = (\<lambda>p. exported (store c p)) ` set xs"
    by (simp add: ef(3) image_image)
  finally show "store ?c1 ` set ?es = (\<lambda>p. exported (store c p)) ` set xs" .
  have "card (set ?es) = length ?es" by (simp add: ri)
  then show "distinct ?es" by (rule card_distinct)
  show "inj_on (store ?c1) (set ?es)"
  proof (rule inj_onI)
    fix p q assume pq: "p \<in> set ?es" "q \<in> set ?es" "store ?c1 p = store ?c1 q"
    note ix = Decode_index_empty [OF emp ef(1)]
    from pq(1) have "entries ?c1 (Key (store ?c1 p)) = Some p" by (simp add: ix ri(2))
    moreover from pq(2,3) have "entries ?c1 (Key (store ?c1 p)) = Some q" by (simp add: ix ri(2))
    ultimately show "p = q" by simp
  qed
  from inv have i: "indexed c xs" by (simp add: cache_inv_def)
  show "inj_on (\<lambda>p. exported (store c p)) (set xs)"
  proof (rule inj_onI)
    fix p q assume pq: "p \<in> set xs" "q \<in> set xs" "exported (store c p) = exported (store c q)"
    from pq(3) have "Key (exported (store c p)) = Key (exported (store c q))" by simp
    then have "Key (store c p) = Key (store c q)" by simp
    with indexed_key_inj [OF i pq(1,2)] show "p = q" by simp
  qed
qed

lemma round_trip_bytes:
  assumes inv: "cache_inv c xs"
    and ro: "ranges_over order (entries c)"
    and emp: "empty_cache c0"
    and ro': "distinct order'" "set order' = dom (entries c)"
  shows "(\<Sum>p\<leftarrow>sortedSlice order' (Decode (encodeEntries order c) c0).
            SizeInBytes S (store (Decode (encodeEntries order c) c0) p))
         = (\<Sum>p\<leftarrow>xs. SizeInBytes S (store c p))"
proof -
  let ?c1 = "Decode (encodeEntries order c) c0"
  let ?es = "sortedSlice order' ?c1"
  note im = round_trip_image [OF inv ro emp ro']
  from inv have dx: "distinct xs" by (simp add: cache_inv_def dll_def)
  have "(\<Sum>p\<leftarrow>?es. SizeInBytes S (store ?c1 p)) = (\<Sum>p\<in>set ?es. SizeInBytes S (store ?c1 p))"
    using im(2) by (rule sum_list_distinct_conv_sum_set)
  also have "\<dots> = sum (SizeInBytes S) (store ?c1 ` set ?es)"
    using im(3) by (simp add: sum.reindex)
  also have "\<dots> = sum (SizeInBytes S) ((\<lambda>p. exported (store c p)) ` set xs)"
    by (simp only: im(1))
  also have "\<dots> = (\<Sum>p\<in>set xs. SizeInBytes S (store c p))"
    using im(4) by (simp add: sum.reindex)
  also have "\<dots> = (\<Sum>p\<leftarrow>xs. SizeInBytes S (store c p))"
    using dx by (rule sum_list_distinct_conv_sum_set [symmetric])
  finally show ?thesis .
qed

subsection \<open>The memory account\<close>

text \<open>
  On a memory-bounded cache every operation keeps \<^verbatim>\<open>memoryUsage\<close> equal to the
  summed sizes of the entries in the map, and so does a load into an empty cache. The
  load into a cache that already holds entries is the exception (C5 below).
\<close>

lemma ran_cache_inv: "cache_inv c xs \<Longrightarrow> ran (entries c) = set xs"
  by (auto simp: ran_def cache_inv_def indexed_def)

lemma entryBytes_list: "cache_inv c xs \<Longrightarrow> entryBytes S c = listBytes S c xs"
proof -
  assume inv: "cache_inv c xs"
  then have "distinct xs" by (simp add: cache_inv_def dll_def)
  then show ?thesis
    by (simp add: entryBytes_def listBytes_def ran_cache_inv [OF inv]
        sum_list_distinct_conv_sum_set)
qed

lemma accounted_iff: "accounted S c \<longleftrightarrow> (\<exists>xs. tracked S c xs)"
proof
  assume "accounted S c"
  then obtain xs where "cache_inv c xs" "maxMemoryUsage c \<noteq> NoMaxMemoryUsage"
    "memoryUsage c = entryBytes S c" by (auto simp: accounted_def)
  then have "tracked S c xs" using entryBytes_list [of c xs S] by (simp add: tracked_def)
  then show "\<exists>xs. tracked S c xs" ..
next
  assume "\<exists>xs. tracked S c xs"
  then obtain xs where "tracked S c xs" ..
  then show "accounted S c"
    using entryBytes_list [of c xs S] by (auto simp: accounted_def tracked_def)
qed

lemma listBytes_cong:
  assumes "\<And>p. p \<in> set xs \<Longrightarrow> Key (store c' p) = Key (store c p) \<and> Value (store c' p) = Value (store c p)"
  shows "listBytes S c' xs = listBytes S c xs"
  unfolding listBytes_def
  by (rule arg_cong [where f = sum_list], rule map_cong [OF refl])
     (simp add: SizeInBytes_def assms)

lemma listBytes_simps [simp]:
  "listBytes S c [] = 0"
  "listBytes S c (x # xs) = SizeInBytes S (store c x) + listBytes S c xs"
  "listBytes S c (xs @ ys) = listBytes S c xs + listBytes S c ys"
  by (simp_all add: listBytes_def)

lemma listBytes_remove1:
  "p \<in> set xs \<Longrightarrow> listBytes S c xs = SizeInBytes S (store c p) + listBytes S c (remove1 p xs)"
  unfolding listBytes_def by (rule sum_list_map_remove1)

lemma tracked_irrelevant [simp]:
  "tracked S (stats_update f2 c) xs = tracked S c xs"
  "tracked S (maxSize_update f5 c) xs = tracked S c xs"
  "tracked S (evictionPolicy_update f7 c) xs = tracked S c xs"
  by (simp_all add: tracked_def listBytes_def)

lemma tracked_store_upd:
  assumes "Key e' = Key (store c p)" and "Value e' = Value (store c p)"
    and "previous e' = previous (store c p)" and "nxt e' = nxt (store c p)"
  shows "tracked S (c\<lparr>store := (store c)(p := e')\<rparr>) xs = tracked S c xs"
proof -
  have "listBytes S (c\<lparr>store := (store c)(p := e')\<rparr>) xs = listBytes S c xs"
    using assms by (intro listBytes_cong) simp
  moreover have "cache_inv (c\<lparr>store := (store c)(p := e')\<rparr>) xs = cache_inv c xs"
    using assms by (intro cache_inv_store_upd) simp_all
  ultimately show ?thesis by (simp add: tracked_def)
qed

lemma tracked_setExpiration [simp]:
  "tracked S (setExpiration t1 ttl e c) xs = tracked S c xs"
  unfolding setExpiration_def by (rule tracked_store_upd) simp_all

lemma tracked_delete:
  assumes "tracked S c xs" and "entries c key = Some p"
  shows "tracked S (fst (delete S key c)) (remove1 p xs)"
proof -
  from assms(1) have inv: "cache_inv c xs" and b: "maxMemoryUsage c \<noteq> NoMaxMemoryUsage"
    and m: "memoryUsage c = listBytes S c xs" by (simp_all add: tracked_def)
  have mem: "p \<in> set xs" using inv assms(2) by (auto simp: cache_inv_def dest: indexed_mem)
  have "listBytes S (fst (delete S key c)) (remove1 p xs) = listBytes S c (remove1 p xs)"
    using assms(2) by (intro listBytes_cong) (simp add: delete_hit remove_refs_payload)
  then have "memoryUsage (fst (delete S key c)) = listBytes S (fst (delete S key c)) (remove1 p xs)"
    using assms(2) b m listBytes_remove1 [OF mem, of S c] by (simp add: delete_hit)
  moreover have "maxMemoryUsage (fst (delete S key c)) = maxMemoryUsage c"
    using assms(2) by (simp add: delete_hit)
  ultimately show ?thesis
    using delete_inv [OF inv assms(2), of S] b by (simp add: tracked_def)
qed

lemma tracked_evict:
  assumes "tracked S c xs" shows "tracked S (evict S c) (drop (Suc 0) xs)"
proof (cases xs)
  case Nil
  with assms have "tail c = None" by (simp add: tracked_def cache_inv_def dll_def)
  then have "evict S c = c" by (simp add: evict_def)
  with assms Nil show ?thesis by simp
next
  case (Cons x ys)
  from assms Cons have inv: "cache_inv c (x # ys)" and b: "maxMemoryUsage c \<noteq> NoMaxMemoryUsage"
    and m: "memoryUsage c = listBytes S c (x # ys)" by (simp_all add: tracked_def)
  note ev = evict_inv [OF inv, of S]
  have "listBytes S (evict S c) ys = listBytes S c ys"
    by (intro listBytes_cong) (simp add: evict_payload)
  moreover have "memoryUsage (evict S c) = memoryUsage c - SizeInBytes S (store c x)"
    using b by (simp add: ev(2))
  ultimately show ?thesis
    using ev(1) b m Cons by (simp add: tracked_def)
qed

lemma accounted_evict: "accounted S c \<Longrightarrow> accounted S (evict S c)"
  unfolding accounted_iff using tracked_evict by blast

lemma insertEntry_memory:
  "memoryUsage (insertEntry S t0 key val c) =
     (if maxMemoryUsage c \<noteq> NoMaxMemoryUsage
      then memoryUsage c + (overhead S + int (length key) + size_of S val)
      else memoryUsage c)"
  by (simp add: insertEntry_def Let_def SizeInBytes_def split: option.splits)

lemma insertEntry_payload:
  "Key (store (insertEntry S t0 key val c) q) = (if q = fresh c then key else Key (store c q))"
  "Value (store (insertEntry S t0 key val c) q) = (if q = fresh c then val else Value (store c q))"
  by (simp_all add: insertEntry_store split: option.splits)

lemma tracked_insert:
  assumes "tracked S c xs" and "entries c key = None"
  shows "tracked S (insertEntry S t0 key val c) (xs @ [fresh c])"
proof -
  let ?c' = "insertEntry S t0 key val c"
  from assms(1) have inv: "cache_inv c xs" and b: "maxMemoryUsage c \<noteq> NoMaxMemoryUsage"
    and m: "memoryUsage c = listBytes S c xs" by (simp_all add: tracked_def)
  from inv have nin: "fresh c \<notin> set xs" by (auto simp: cache_inv_def)
  have "listBytes S ?c' xs = listBytes S c xs"
    using nin by (intro listBytes_cong) (auto simp: insertEntry_payload)
  moreover have "SizeInBytes S (store ?c' (fresh c)) = overhead S + int (length key) + size_of S val"
    by (simp add: SizeInBytes_def insertEntry_payload)
  ultimately have "memoryUsage ?c' = listBytes S ?c' (xs @ [fresh c])"
    using b m by (simp add: insertEntry_memory)
  then show ?thesis
    using insertEntry_inv [OF inv assms(2), of S t0 val] b by (simp add: tracked_def)
qed

lemma updateEntry_memory:
  "memoryUsage (updateEntry S val p c) =
     (if maxMemoryUsage c \<noteq> NoMaxMemoryUsage
      then memoryUsage c - SizeInBytes S (store c p) + SizeInBytes S ((store c p)\<lparr>Value := val\<rparr>)
      else memoryUsage c)"
  by (simp add: updateEntry_def Let_def)

lemma updateEntry_payload:
  "Key (store (updateEntry S val p c) q) = Key (store c q)"
  "Value (store (updateEntry S val p c) q) = (if q = p then val else Value (store c q))"
  by (simp_all add: updateEntry_def Let_def move_to_head_payload)

lemma tracked_update:
  assumes "tracked S c xs" and "p \<in> set xs"
  shows "tracked S (updateEntry S val p c) (remove1 p xs @ [p])"
proof -
  let ?c' = "updateEntry S val p c"
  from assms(1) have inv: "cache_inv c xs" and b: "maxMemoryUsage c \<noteq> NoMaxMemoryUsage"
    and m: "memoryUsage c = listBytes S c xs" by (simp_all add: tracked_def)
  from inv have "distinct xs" by (simp add: cache_inv_def dll_def)
  then have nin: "p \<notin> set (remove1 p xs)" by simp
  have "listBytes S ?c' (remove1 p xs) = listBytes S c (remove1 p xs)"
    using nin by (intro listBytes_cong) (auto simp: updateEntry_payload)
  moreover have "SizeInBytes S (store ?c' p) = SizeInBytes S ((store c p)\<lparr>Value := val\<rparr>)"
    by (simp add: SizeInBytes_def updateEntry_payload)
  ultimately have "memoryUsage ?c' = listBytes S ?c' (remove1 p xs @ [p])"
    using b m listBytes_remove1 [OF assms(2), of S c] by (simp add: updateEntry_memory)
  then show ?thesis
    using updateEntry_inv [OF inv assms(2), of S val] b by (simp add: tracked_def)
qed

lemma tracked_move_to_head:
  assumes "tracked S c xs" and "p \<in> set xs"
  shows "tracked S (moveExistingEntryToHead p c) (remove1 p xs @ [p])"
proof -
  from assms(1) have inv: "cache_inv c xs" and b: "maxMemoryUsage c \<noteq> NoMaxMemoryUsage"
    and m: "memoryUsage c = listBytes S c xs" by (simp_all add: tracked_def)
  have "listBytes S (moveExistingEntryToHead p c) (remove1 p xs @ [p]) = listBytes S c (remove1 p xs @ [p])"
    by (intro listBytes_cong) (simp add: move_to_head_payload)
  then have "memoryUsage (moveExistingEntryToHead p c) = listBytes S (moveExistingEntryToHead p c) (remove1 p xs @ [p])"
    using m listBytes_remove1 [OF assms(2), of S c] by simp
  then show ?thesis
    using move_to_head_inv [OF inv assms(2)] b by (simp add: tracked_def)
qed

lemma tracked_enforceBounds:
  assumes "tracked S c xs"
  shows "\<exists>c' ys. enforceBounds S c = Some c' \<and> tracked S c' ys"
proof -
  define c6 where "c6 = (if maxSize c \<noteq> NoMaxSize \<and> len c > maxSize c then evict S c else c)"
  have t6: "\<exists>ys. tracked S c6 ys"
    using assms tracked_evict [OF assms] by (auto simp: c6_def)
  then obtain ys where ys: "tracked S c6 ys" ..
  from assms have b: "maxMemoryUsage c \<noteq> NoMaxMemoryUsage" by (simp add: tracked_def)
  then have e: "enforceBounds S c =
        (if maxMemoryUsage c6 \<noteq> NoMaxMemoryUsage \<and> memoryUsage c6 > maxMemoryUsage c6
         then map_option snd (evictWhileOverMemory S 0 c6) else Some c6)"
    unfolding enforceBounds_def Let_def c6_def by simp
  show ?thesis
  proof (cases "maxMemoryUsage c6 \<noteq> NoMaxMemoryUsage \<and> memoryUsage c6 > maxMemoryUsage c6")
    case False
    then have "enforceBounds S c = Some c6" by (auto simp: e)
    with ys show ?thesis by blast
  next
    case True
    then have e': "enforceBounds S c = map_option snd (evictWhileOverMemory S 0 c6)"
      by (auto simp: e)
    from ys have "cache_inv c6 ys" by (simp add: tracked_def)
    from evictWhileOverMemory_returns [OF this, of S 0] obtain n' c' where
      r: "evictWhileOverMemory S 0 c6 = Some (n', c')" by blast
    have "\<exists>zs. tracked S (snd (n', c')) zs"
      using r t6
    proof (rule evictWhileOverMemory_preserves)
      show "\<forall>d. (\<exists>zs. tracked S d zs) \<longrightarrow> (\<exists>zs. tracked S (evict S d) zs)"
        using tracked_evict by blast
    qed
    moreover have "enforceBounds S c = Some c'" by (simp only: e' r) simp
    ultimately show ?thesis by auto
  qed
qed

lemma tracked_SetWithTTL:
  assumes "tracked S c xs"
  shows "\<exists>c' ys. SetWithTTL S t0 t1 key val ttl c = Some c' \<and> tracked S c' ys"
proof (cases "entries c key")
  case None
  show ?thesis
  proof (cases "ttl \<noteq> NoExpiration \<and> ttl < 0")
    case True
    with None have "SetWithTTL S t0 t1 key val ttl c = Some c"
      by (simp add: SetWithTTL_stages)
    with assms show ?thesis by auto
  next
    case False
    let ?c5 = "setExpiration t1 ttl (fresh c) (insertEntry S t0 key val c)"
    have s: "SetWithTTL S t0 t1 key val ttl c = enforceBounds S ?c5"
      using None False by (auto simp: SetWithTTL_stages)
    have "tracked S ?c5 (xs @ [fresh c])"
      using assms None by (simp add: tracked_insert)
    from tracked_enforceBounds [OF this] show ?thesis by (simp add: s)
  qed
next
  case (Some p)
  let ?c5 = "setExpiration t1 ttl p (updateEntry S val p c)"
  have s: "SetWithTTL S t0 t1 key val ttl c = enforceBounds S ?c5"
    using Some by (simp add: SetWithTTL_stages)
  have mem: "p \<in> set xs"
    using assms Some by (auto simp: tracked_def cache_inv_def dest: indexed_mem)
  have "tracked S ?c5 (remove1 p xs @ [p])"
    using assms mem by (simp add: tracked_update)
  from tracked_enforceBounds [OF this] show ?thesis by (simp add: s)
qed

lemma tracked_SetAll:
  assumes "tracked S c xs"
  shows "\<exists>c' ys. SetAll S kvs c = Some c' \<and> tracked S c' ys"
  using assms
proof (induction kvs arbitrary: c xs)
  case Nil
  then show ?case by auto
next
  case (Cons kv kvs)
  obtain t key val where kv: "kv = (t, key, val)" by (cases kv) auto
  from tracked_SetWithTTL [OF Cons.prems, of t t key val NoExpiration] obtain c1 ys where
    c1: "SetWithTTL S t t key val NoExpiration c = Some c1" "tracked S c1 ys"
    by blast
  from Cons.IH [OF c1(2)] c1(1) show ?case by (simp add: kv)
qed

lemma tracked_Delete:
  assumes "tracked S c xs"
  shows "\<exists>ys. tracked S (fst (Delete S key c)) ys"
proof (cases "entries c key")
  case None
  with assms show ?thesis by (auto simp: Delete_def delete_miss)
next
  case (Some p)
  from tracked_delete [OF assms Some] show ?thesis by (auto simp: Delete_def)
qed

lemma tracked_DeleteAll:
  assumes "tracked S c xs"
  shows "\<exists>ys. tracked S (fst (DeleteAll S keys c)) ys"
  using assms
proof (induction keys arbitrary: c xs)
  case Nil
  then show ?case by auto
next
  case (Cons key keys)
  from tracked_Delete [OF Cons.prems, of key] obtain ys where
    "tracked S (fst (delete S key c)) ys" by (auto simp: Delete_def)
  from Cons.IH [OF this] show ?case by (simp add: split_beta)
qed

lemma tracked_Get:
  assumes "tracked S c xs"
  shows "\<exists>ys. tracked S (fst (Get S t0 t1 key c)) ys"
proof (cases "entries c key")
  case None
  with assms show ?thesis by (auto simp: Get_def get_def)
next
  case (Some p)
  then have mem: "p \<in> set xs"
    using assms by (auto simp: tracked_def cache_inv_def dest: indexed_mem)
  let ?c1 = "c\<lparr>stats := (stats c)\<lparr>Hits := Hits (stats c) + 1\<rparr>\<rparr>"
  have t1: "tracked S ?c1 xs" using assms by simp
  show ?thesis
  proof (cases "Expired t0 (store c p)")
    case True
    have "tracked S (fst (delete S key ?c1)) (remove1 p xs)"
      by (rule tracked_delete [OF t1]) (simp add: Some)
    then show ?thesis
      using Some True by (auto simp: Get_expired)
  next
    case False
    show ?thesis
    proof (cases "evictionPolicy c = LeastRecentlyUsed")
      case lru: True
      let ?c2 = "?c1\<lparr>store := (store ?c1)(p := Accessed t1 (store ?c1 p))\<rparr>"
      have t2: "tracked S ?c2 xs"
        using t1 by (subst tracked_store_upd) (simp_all add: Accessed_def)
      show ?thesis
      proof (cases "head ?c2 = Some p")
        case True
        with Some False lru t2 show ?thesis
          by (intro exI [of _ xs]) (simp add: Get_def get_def Let_def)
      next
        case nh: False
        have "tracked S (moveExistingEntryToHead p ?c2) (remove1 p xs @ [p])"
          by (rule tracked_move_to_head [OF t2 mem])
        then show ?thesis
          using Some False lru nh
          by (intro exI [of _ "remove1 p xs @ [p]"]) (simp add: Get_def get_def Let_def)
      qed
    next
      case fifo: False
      with Some False t1 show ?thesis
        by (intro exI [of _ xs]) (simp add: Get_def get_def Let_def)
    qed
  qed
qed

lemma tracked_Expire:
  assumes "tracked S c xs"
  shows "tracked S (fst (Expire t0 t1 key ttl c)) xs"
proof -
  have "\<And>p v. tracked S (c\<lparr>store := (store c)(p := (store c p)\<lparr>Expiration := v\<rparr>)\<rparr>) xs"
    using assms by (subst tracked_store_upd) simp_all
  with assms show ?thesis
    by (auto simp: Expire_def get_def split: option.splits)
qed

lemma tracked_Clear:
  "maxMemoryUsage c \<noteq> NoMaxMemoryUsage \<Longrightarrow> tracked S (Clear c) []"
  using Clear_inv [of c] by (simp add: tracked_def) (simp add: Clear_def)

lemma tracked_relinked:
  assumes "empty_cache c" and "wf_snapshot ps"
    and "ranges_over order (entries (Decode ps c))"
    and "maxMemoryUsage c \<noteq> NoMaxMemoryUsage"
  shows "tracked S (relinked S ps order c) (sortedSlice order (Decode ps c))"
proof -
  let ?es = "sortedSlice order (Decode ps c)"
  have "memoryUsage (relinked S ps order c) = listBytes S (Decode ps c) ?es"
    using assms(1,4) by (simp add: relinked_def relink_memory empty_cache_def listBytes_def)
  also have "\<dots> = listBytes S (relinked S ps order c) ?es"
    using same_payload_relinked [of ps c S order]
    by (intro listBytes_cong [symmetric]) (simp add: same_payload_def)
  finally show ?thesis
    using relinked_inv(1) [OF assms(1,2,3), where S = S] assms(4) by (simp add: tracked_def)
qed

lemma load_into_empty_accounted:
  assumes "empty_cache c" and "wf_snapshot ps" and "distinct order"
    and "set order = fst ` set ps" and "0 \<le> maxSize c"
    and "maxMemoryUsage c \<noteq> NoMaxMemoryUsage"
  shows "\<exists>c' n. ReadFromFile S (Decoded ps) order c = Some (c', n, None) \<and> accounted S c'"
proof -
  note ro = empty_ranges_over [OF assms(1,3,4)]
  from load_into_empty_inv [OF assms(1-5), of S] obtain c' n where
    r: "ReadFromFile S (Decoded ps) order c = Some (c', n, None)" by blast
  have "accounted S c'"
    using r
  proof (rule ReadFromFile_preserves)
    show "accounted S (relinked S ps order c)"
      unfolding accounted_iff using tracked_relinked [OF assms(1,2) ro assms(6)] by blast
    show "\<forall>d. accounted S d \<longrightarrow> accounted S (evict S d)"
      using accounted_evict by blast
  qed
  with r show ?thesis by blast
qed

lemma memory_accounting_preserved:
  assumes "accounted S c"
  shows "(\<exists>c'. SetWithTTL S t0 t1 key val ttl c = Some c' \<and> accounted S c')
       \<and> (\<exists>c'. Set S t0 key val c = Some c' \<and> accounted S c')
       \<and> (\<exists>c'. SetAll S kvs c = Some c' \<and> accounted S c')
       \<and> accounted S (fst (Get S t0 t1 key c))
       \<and> accounted S (fst (Delete S key c))
       \<and> accounted S (fst (DeleteAll S keys c))
       \<and> accounted S (Clear c)
       \<and> accounted S (fst (Expire t0 t1 key ttl c))"
proof -
  from assms obtain xs where t: "tracked S c xs" unfolding accounted_iff ..
  then have b: "maxMemoryUsage c \<noteq> NoMaxMemoryUsage" by (simp add: tracked_def)
  have "\<exists>c'. SetWithTTL S t0 t1 key val ttl c = Some c' \<and> accounted S c'"
    unfolding accounted_iff using tracked_SetWithTTL [OF t] by blast
  moreover have "\<exists>c'. Set S t0 key val c = Some c' \<and> accounted S c'"
    unfolding accounted_iff Set_def using tracked_SetWithTTL [OF t] by blast
  moreover have "\<exists>c'. SetAll S kvs c = Some c' \<and> accounted S c'"
    unfolding accounted_iff using tracked_SetAll [OF t] by blast
  moreover have "accounted S (fst (Get S t0 t1 key c))"
    unfolding accounted_iff by (rule tracked_Get [OF t])
  moreover have "accounted S (fst (Delete S key c))"
    unfolding accounted_iff by (rule tracked_Delete [OF t])
  moreover have "accounted S (fst (DeleteAll S keys c))"
    unfolding accounted_iff by (rule tracked_DeleteAll [OF t])
  moreover have "accounted S (Clear c)"
    unfolding accounted_iff using tracked_Clear [OF b] by blast
  moreover have "accounted S (fst (Expire t0 t1 key ttl c))"
    unfolding accounted_iff using tracked_Expire [OF t] by blast
  ultimately show ?thesis by blast
qed

subsection \<open>The sample caches\<close>

text \<open>
  The sample caches are states the operations reach from \<^verbatim>\<open>NewCache()\<close>.
\<close>

lemmas write_defs =
  Set_def SetWithTTL_def get_def NewCache_def Let_def NoExpiration_def NoMaxSize_def
  NoMaxMemoryUsage_def DefaultMaxSize_def len_def

lemmas load_defs =
  ReadFromFile_def encodeEntries_def List.map_filter_def exported_def Let_def NoMaxSize_def
  NoMaxMemoryUsage_def DefaultMaxSize_def len_def SizeInBytes_def S0_def snap_entry_def



lemma c_abc_built: "Set S0 3 ''c'' ''z'' c_ab = Some c_abc"
  by (simp add: write_defs c_ab_def c_abc_def)

lemma c_t_built:
  "SetWithTTL S0 90 90 ''t'' ''v'' 10
     (WithEvictionPolicy LeastRecentlyUsed (WithMaxMemoryUsage 1024 c_new)) = Some c_t"
  by (simp add: write_defs c_new_def c_t_def WithEvictionPolicy_def WithMaxMemoryUsage_def S0_def SizeInBytes_def UnixNano_def)


lemma c_ba_built: "Set S0 3 ''a'' ''z'' c_ab = Some c_ba"
  by (simp add: write_defs c_ab_def c_ba_def moveExistingEntryToHead_def
      removeExistingEntryReferences_def fun_upd_twist)

lemma c_ab_inv: "cache_inv c_ab [0, 1]"
  by (auto simp: cache_inv_def dll_def indexed_def c_ab_def)


lemma c_max7_bounded: "bounded_inv c_max7"
proof -
  have "cache_inv c_max7 []"
    by (simp add: cache_inv_def dll_def indexed_def c_max7_def c_new_def NewCache_def WithMaxSize_def)
  moreover have "maxSize c_max7 = 7" by (simp add: c_max7_def c_new_def NewCache_def WithMaxSize_def)
  ultimately show ?thesis
    using cache_inv_len [of c_max7 "[]"] by (intro bounded_invI [of _ "[]"]) (simp_all add: NoMaxSize_def)
qed


lemma c_ba_inv: "cache_inv c_ba [1, 0]"
  by (auto simp: cache_inv_def dll_def indexed_def c_ba_def)

lemma c_ba2_bounded: "bounded_inv (WithMaxSize 2 c_ba)"
proof -
  have "cache_inv (WithMaxSize 2 c_ba) [1, 0]"
    by (auto simp: cache_inv_def dll_def indexed_def c_ba_def WithMaxSize_def)
  moreover have "maxSize (WithMaxSize 2 c_ba) = 2" by (simp add: WithMaxSize_def)
  ultimately show ?thesis
    using cache_inv_len [of "WithMaxSize 2 c_ba" "[1, 0]"]
    by (intro bounded_invI [of _ "[1, 0]"]) (simp_all add: NoMaxSize_def)
qed

lemma c_t_accounted: "accounted S0 c_t"
proof -
  have "cache_inv c_t [0]"
    by (auto simp: cache_inv_def dll_def indexed_def c_t_def)
  moreover have "memoryUsage c_t = listBytes S0 c_t [0]"
    by (simp add: c_t_def S0_def SizeInBytes_def)
  ultimately have "tracked S0 c_t [0]"
    by (simp add: tracked_def) (simp add: c_t_def NoMaxMemoryUsage_def)
  then show ?thesis unfolding accounted_iff ..
qed

section \<open>The properties of the specification\<close>

subsection \<open>C1: the snapshot round trip\<close>

text \<open>
  C1, as amended. Take a well-formed cache that is within its bounds.
  \<^verbatim>\<open>SaveToFile\<close> followed by \<^verbatim>\<open>ReadFromFile\<close> into an empty cache with the
  same \<^verbatim>\<open>maxSize\<close>, \<^verbatim>\<open>maxMemoryUsage\<close> and policy returns, evicts nothing,
  and yields a well-formed cache with the same key set and the same value under every
  key, whatever the timestamps are. If moreover the recency list runs through strictly
  increasing timestamps from the tail to the head, the head key and the tail key are the
  same as well; indeed the whole recency order is reproduced. Neither range order
  matters.
\<close>

theorem snapshot_round_trip:
  assumes inv: "cache_inv c xs"
    and ro: "ranges_over order (entries c)"
    and emp: "empty_cache c0"
    and ro': "distinct order'" "set order' = dom (entries c)"
    and cfg: "maxSize c0 = maxSize c" "maxMemoryUsage c0 = maxMemoryUsage c"
      "evictionPolicy c0 = evictionPolicy c"
    and bnd1: "maxSize c \<noteq> NoMaxSize \<longrightarrow> len c \<le> maxSize c"
    and bnd2: "maxMemoryUsage c \<noteq> NoMaxMemoryUsage \<longrightarrow>
                 (\<Sum>p\<leftarrow>xs. SizeInBytes S (store c p)) \<le> maxMemoryUsage c"
  shows "\<exists>ps c' es. SaveToFile None order c = Inr ps
           \<and> ReadFromFile S (Decoded ps) order' c0 = Some (c', 0, None)
           \<and> dom (entries c') = dom (entries c)
           \<and> (\<forall>k p p'. entries c k = Some p \<and> entries c' k = Some p'
                 \<longrightarrow> Value (store c' p') = Value (store c p))
           \<and> cache_inv c' es
           \<and> (sorted_wrt (<) (map (\<lambda>p. RelevantTimestamp (store c p)) xs) \<longrightarrow>
                map_option (\<lambda>p. Key (store c' p)) (head c') = map_option (\<lambda>p. Key (store c p)) (head c)
              \<and> map_option (\<lambda>p. Key (store c' p)) (tail c') = map_option (\<lambda>p. Key (store c p)) (tail c)
              \<and> map (\<lambda>p. Key (store c' p)) es = map (\<lambda>p. Key (store c p)) xs)"
proof -
  let ?ps = "encodeEntries order c"
  let ?c1 = "Decode ?ps c0" and ?es = "sortedSlice order' (Decode ?ps c0)"
  let ?c2 = "relinked S ?ps order' c0"
  note ef = encodeEntries_facts [OF inv ro]
  have ro1: "ranges_over order' (entries ?c1)"
    using emp ro' ef(2) by (intro empty_ranges_over) simp_all
  note ri = relinked_inv(1) [OF emp ef(1) ro1, where S = S] relinked_inv(3) [OF emp ef(1) ro1]
  note im = round_trip_image(1) [OF inv ro emp ro']
  note sm = round_trip_bytes [OF inv ro emp ro', of S]
  have lx: "len c = int (length xs)" using inv by (rule cache_inv_len)
  have nn: "0 \<le> maxSize c0" using bnd1 lx cfg(1) by (cases "maxSize c = NoMaxSize") (auto simp: NoMaxSize_def)
  have b1: "maxSize c0 \<noteq> NoMaxSize \<longrightarrow> int (length ?es) \<le> maxSize c0"
    using bnd1 lx cfg(1) by (simp add: ri(2) ef(4))
  have "memoryUsage ?c2 =
      (if maxMemoryUsage c0 \<noteq> NoMaxMemoryUsage then (\<Sum>p\<leftarrow>xs. SizeInBytes S (store c p)) else 0)"
    using emp by (simp add: relinked_def relink_memory sm empty_cache_def)
  then have b2: "maxMemoryUsage c0 \<noteq> NoMaxMemoryUsage \<longrightarrow> memoryUsage ?c2 \<le> maxMemoryUsage c0"
    using bnd2 cfg(2) by simp
  from ReadFromFile_enforce [OF ri(1) nn] b1 b2 obtain c' where
    r: "ReadFromFile S (Decoded ?ps) order' c0 = Some (c', 0, None)"
    and inv': "cache_inv c' ?es" and pay: "same_payload ?c2 c'"
    by auto
  have pay1: "same_payload ?c1 c'"
    using same_payload_relinked pay by (rule same_payload_trans)
  have kv: "(\<lambda>p. (Key (store c' p), Value (store c' p))) ` set ?es
          = (\<lambda>p. (Key (store c p), Value (store c p))) ` set xs"
  proof -
    have "(\<lambda>p. (Key (store c' p), Value (store c' p))) ` set ?es
        = (\<lambda>e. (Key e, Value e)) ` (store ?c1 ` set ?es)"
      using pay1 by (simp add: same_payload_def image_image)
    also have "\<dots> = (\<lambda>e. (Key e, Value e)) ` ((\<lambda>p. exported (store c p)) ` set xs)"
      by (simp only: im)
    also have "\<dots> = (\<lambda>p. (Key (store c p), Value (store c p))) ` set xs"
      by (simp add: image_image)
    finally show ?thesis .
  qed
  from inv' have ht': "head c' = last_of ?es" "tail c' = first_of ?es" and ix': "indexed c' ?es"
    by (simp_all add: cache_inv_def dll_def)
  from inv have ht: "head c = last_of xs" "tail c = first_of xs" and ix: "indexed c xs"
    by (simp_all add: cache_inv_def dll_def)
  have "dom (entries c') = fst ` (\<lambda>p. (Key (store c' p), Value (store c' p))) ` set ?es"
    by (simp add: indexed_dom [OF ix'] image_image)
  also have "\<dots> = dom (entries c)"
    by (simp only: kv) (simp add: indexed_dom [OF ix] image_image)
  finally have dom_eq: "dom (entries c') = dom (entries c)" .
  have vals: "Value (store c' p') = Value (store c p)"
    if "entries c k = Some p" "entries c' k = Some p'" for k p p'
  proof -
    from that ix ix' have p: "p \<in> set xs" "Key (store c p) = k"
      and p': "p' \<in> set ?es" "Key (store c' p') = k"
      by (auto dest: indexed_mem)
    from p' have "(k, Value (store c' p')) \<in> (\<lambda>p. (Key (store c' p), Value (store c' p))) ` set ?es"
      by force
    then have "(k, Value (store c' p')) \<in> (\<lambda>p. (Key (store c p), Value (store c p))) ` set xs"
      by (simp only: kv)
    then obtain q where q: "q \<in> set xs" "Key (store c q) = k" "Value (store c q) = Value (store c' p')"
      by auto
    from indexed_key_inj [OF ix q(1) p(1)] q(2) p(2) have "q = p" by simp
    with q(3) show ?thesis by simp
  qed
  have ordered: "map_option (\<lambda>p. Key (store c' p)) (head c') = map_option (\<lambda>p. Key (store c p)) (head c)
      \<and> map_option (\<lambda>p. Key (store c' p)) (tail c') = map_option (\<lambda>p. Key (store c p)) (tail c)
      \<and> map (\<lambda>p. Key (store c' p)) ?es = map (\<lambda>p. Key (store c p)) xs"
    if ord: "sorted_wrt (<) (map (\<lambda>p. RelevantTimestamp (store c p)) xs)"
  proof -
    note rt = round_trip_order [OF inv ord ro emp ro']
    have "map (\<lambda>p. Key (store c' p)) ?es = map Key (map (store ?c1) ?es)"
      using pay1 by (simp add: same_payload_def comp_def)
    also have "\<dots> = map (\<lambda>p. Key (store c p)) xs"
      by (simp only: rt) (simp add: comp_def)
    finally have keys: "map (\<lambda>p. Key (store c' p)) ?es = map (\<lambda>p. Key (store c p)) xs" .
    have "map_option (\<lambda>p. Key (store c' p)) (head c') = map_option (\<lambda>p. Key (store c p)) (head c)"
      unfolding ht ht' by (rule map_option_ends(1) [OF keys])
    moreover have "map_option (\<lambda>p. Key (store c' p)) (tail c') = map_option (\<lambda>p. Key (store c p)) (tail c)"
      unfolding ht ht' by (rule map_option_ends(2) [OF keys])
    ultimately show ?thesis using keys by simp
  qed
  have "SaveToFile None order c = Inr ?ps" by (simp add: SaveToFile_def)
  with r dom_eq vals inv' ordered show ?thesis
    by (intro exI [of _ ?ps] exI [of _ c'] exI [of _ ?es]) blast
qed

text \<open>
  The theorem at \<open>c_ab\<close>, whose list is in the order of its timestamps, and at
  \<open>c_ba\<close>, whose list is not: there the keys and values still come back.
\<close>

theorem snapshot_round_trip_witness:
  "cache_inv c_ab [0, 1]
   \<and> sorted_wrt (<) (map (\<lambda>p. RelevantTimestamp (store c_ab p)) [0, 1])
   \<and> ranges_over [''b'', ''a''] (entries c_ab) \<and> empty_cache c_new
   \<and> maxSize c_new = maxSize c_ab \<and> maxMemoryUsage c_new = maxMemoryUsage c_ab
   \<and> evictionPolicy c_new = evictionPolicy c_ab \<and> len c_ab \<le> maxSize c_ab
   \<and> (\<exists>ps c'. SaveToFile None [''b'', ''a''] c_ab = Inr ps
          \<and> ReadFromFile S0 (Decoded ps) [''a'', ''b''] c_new = Some (c', 0, None)
          \<and> dom (entries c') = {''a'', ''b''}
          \<and> map_option (\<lambda>p. Key (store c' p)) (head c') = Some ''b''
          \<and> map_option (\<lambda>p. Key (store c' p)) (tail c') = Some ''a'')
   \<and> cache_inv c_ba [1, 0]
   \<and> (\<exists>ps c'. SaveToFile None [''a'', ''b''] c_ba = Inr ps
          \<and> ReadFromFile S0 (Decoded ps) [''b'', ''a''] c_new = Some (c', 0, None)
          \<and> dom (entries c') = {''a'', ''b''}
          \<and> map_option (\<lambda>p. Value (store c' p)) (entries c' ''a'') = Some ''z''
          \<and> map_option (\<lambda>p. Value (store c' p)) (entries c' ''b'') = Some ''y'')"
proof -
  have h1: "sorted_wrt (<) (map (\<lambda>p. RelevantTimestamp (store c_ab p)) [0, 1])"
    by (simp add: c_ab_def)
  have h2: "ranges_over [''b'', ''a''] (entries c_ab)"
    by (auto simp: ranges_over_def c_ab_def)
  have h3: "empty_cache c_new" by (simp add: empty_cache_def c_new_def NewCache_def)
  have h4: "distinct [''a'', ''b'']" "set [''a'', ''b''] = dom (entries c_ab)"
    by (auto simp: c_ab_def)
  have h5: "maxSize c_new = maxSize c_ab" "maxMemoryUsage c_new = maxMemoryUsage c_ab"
    "evictionPolicy c_new = evictionPolicy c_ab"
    by (simp_all add: c_new_def NewCache_def c_ab_def DefaultMaxSize_def)
  have l: "len c_ab \<le> maxSize c_ab" by (simp add: c_ab_def len_def)
  then have h6: "maxSize c_ab \<noteq> NoMaxSize \<longrightarrow> len c_ab \<le> maxSize c_ab" by simp
  have h7: "maxMemoryUsage c_ab \<noteq> NoMaxMemoryUsage \<longrightarrow>
      (\<Sum>p\<leftarrow>[0, 1]. SizeInBytes S0 (store c_ab p)) \<le> maxMemoryUsage c_ab"
    by (simp add: c_ab_def NoMaxMemoryUsage_def)
  have ends: "map_option (\<lambda>p. Key (store c_ab p)) (head c_ab) = Some ''b''"
    "map_option (\<lambda>p. Key (store c_ab p)) (tail c_ab) = Some ''a''"
    "dom (entries c_ab) = {''a'', ''b''}"
    by (auto simp: c_ab_def)
  from snapshot_round_trip [OF c_ab_inv h2 h3 h4 h5 h6 h7] h1 obtain ps c' where
    r: "SaveToFile None [''b'', ''a''] c_ab = Inr ps"
      "ReadFromFile S0 (Decoded ps) [''a'', ''b''] c_new = Some (c', 0, None)"
      "dom (entries c') = dom (entries c_ab)"
      "map_option (\<lambda>p. Key (store c' p)) (head c') = map_option (\<lambda>p. Key (store c_ab p)) (head c_ab)"
      "map_option (\<lambda>p. Key (store c' p)) (tail c') = map_option (\<lambda>p. Key (store c_ab p)) (tail c_ab)"
    by blast
  have "\<exists>ps c'. SaveToFile None [''b'', ''a''] c_ab = Inr ps
          \<and> ReadFromFile S0 (Decoded ps) [''a'', ''b''] c_new = Some (c', 0, None)
          \<and> dom (entries c') = {''a'', ''b''}
          \<and> map_option (\<lambda>p. Key (store c' p)) (head c') = Some ''b''
          \<and> map_option (\<lambda>p. Key (store c' p)) (tail c') = Some ''a''"
    using r unfolding ends by (intro exI [of _ ps] exI [of _ c']) (intro conjI)
  moreover have "\<exists>ps c'. SaveToFile None [''a'', ''b''] c_ba = Inr ps
          \<and> ReadFromFile S0 (Decoded ps) [''b'', ''a''] c_new = Some (c', 0, None)
          \<and> dom (entries c') = {''a'', ''b''}
          \<and> map_option (\<lambda>p. Value (store c' p)) (entries c' ''a'') = Some ''z''
          \<and> map_option (\<lambda>p. Value (store c' p)) (entries c' ''b'') = Some ''y''"
  proof -
    have g2: "ranges_over [''a'', ''b''] (entries c_ba)"
      by (auto simp: ranges_over_def c_ba_def)
    have g4: "distinct [''b'', ''a'']" "set [''b'', ''a''] = dom (entries c_ba)"
      by (auto simp: c_ba_def)
    have g5: "maxSize c_new = maxSize c_ba" "maxMemoryUsage c_new = maxMemoryUsage c_ba"
      "evictionPolicy c_new = evictionPolicy c_ba"
      by (simp_all add: c_new_def NewCache_def c_ba_def DefaultMaxSize_def)
    have g6: "maxSize c_ba \<noteq> NoMaxSize \<longrightarrow> len c_ba \<le> maxSize c_ba"
      by (simp add: c_ba_def len_def)
    have g7: "maxMemoryUsage c_ba \<noteq> NoMaxMemoryUsage \<longrightarrow>
        (\<Sum>p\<leftarrow>[1, 0]. SizeInBytes S0 (store c_ba p)) \<le> maxMemoryUsage c_ba"
      by (simp add: c_ba_def NoMaxMemoryUsage_def)
    have e: "entries c_ba ''a'' = Some 0" "entries c_ba ''b'' = Some 1"
      "Value (store c_ba 0) = ''z''" "Value (store c_ba 1) = ''y''"
      "dom (entries c_ba) = {''a'', ''b''}"
      by (auto simp: c_ba_def)
    from snapshot_round_trip [OF c_ba_inv g2 h3 g4 g5 g6 g7] obtain ps c' where
      r: "SaveToFile None [''a'', ''b''] c_ba = Inr ps"
        "ReadFromFile S0 (Decoded ps) [''b'', ''a''] c_new = Some (c', 0, None)"
        "dom (entries c') = dom (entries c_ba)"
        "\<forall>k p p'. entries c_ba k = Some p \<and> entries c' k = Some p'
           \<longrightarrow> Value (store c' p') = Value (store c_ba p)"
      by blast
    have d: "dom (entries c') = {''a'', ''b''}" using r(3) by (simp only: e(5))
    then have "''a'' \<in> dom (entries c')" "''b'' \<in> dom (entries c')" by simp_all
    then obtain pa pb where pp: "entries c' ''a'' = Some pa" "entries c' ''b'' = Some pb"
      by (auto simp only: dom_def mem_Collect_eq)
    have "entries c_ba ''a'' = Some 0 \<and> entries c' ''a'' = Some pa
            \<longrightarrow> Value (store c' pa) = Value (store c_ba 0)"
      using r(4) by (elim allE)
    then have va: "Value (store c' pa) = ''z''" using e(1,3) pp(1) by simp
    have "entries c_ba ''b'' = Some 1 \<and> entries c' ''b'' = Some pb
            \<longrightarrow> Value (store c' pb) = Value (store c_ba 1)"
      using r(4) by (elim allE)
    then have vb: "Value (store c' pb) = ''y''" using e(2,4) pp(2) by simp
    have "map_option (\<lambda>p. Value (store c' p)) (entries c' ''a'') = Some ''z''"
      "map_option (\<lambda>p. Value (store c' p)) (entries c' ''b'') = Some ''y''"
      by (simp_all add: pp va vb)
    with r(1,2) d show ?thesis
      by (intro exI [of _ ps] exI [of _ c']) (intro conjI)
  qed
  ultimately show ?thesis using c_ab_inv h1 h2 h3 h5 l c_ba_inv by (intro conjI)
qed

text \<open>
  Distinct timestamps alone do not suffice. An update moves its entry to the head and
  leaves the timestamp of its creation: after \<^verbatim>\<open>Set("a")\<close>, \<^verbatim>\<open>Set("b")\<close>,
  \<^verbatim>\<open>Set("a")\<close> the head is \<open>a\<close> and the tail \<open>b\<close>, with timestamps 1 and 2;
  the reloaded cache has head \<open>b\<close> and tail \<open>a\<close>.
\<close>

theorem snapshot_round_trip_counterexample:
  "Set S0 3 ''a'' ''z'' c_ab = Some c_ba
   \<and> RelevantTimestamp (store c_ba 0) = 1 \<and> RelevantTimestamp (store c_ba 1) = 2
   \<and> dom (entries c_ba) = {''a'', ''b''} \<and> entries c_ba ''a'' = Some 0 \<and> entries c_ba ''b'' = Some 1
   \<and> empty_cache c_new \<and> maxSize c_new = maxSize c_ba
   \<and> maxMemoryUsage c_new = maxMemoryUsage c_ba \<and> evictionPolicy c_new = evictionPolicy c_ba
   \<and> map_option (\<lambda>p. Key (store c_ba p)) (head c_ba) = Some ''a''
   \<and> map_option (\<lambda>p. Key (store c_ba p)) (tail c_ba) = Some ''b''
   \<and> SaveToFile None [''a'', ''b''] c_ba = Inr (encodeEntries [''a'', ''b''] c_ba)
   \<and> map_option (\<lambda>(c', n, e). (map_option (\<lambda>p. Key (store c' p)) (head c'),
                                 map_option (\<lambda>p. Key (store c' p)) (tail c'), n, e))
        (ReadFromFile S0 (Decoded (encodeEntries [''a'', ''b''] c_ba)) [''b'', ''a''] c_new)
      = Some (Some ''b'', Some ''a'', 0, None)"
proof -
  have "map_option (\<lambda>(c', n, e). (map_option (\<lambda>p. Key (store c' p)) (head c'),
                                 map_option (\<lambda>p. Key (store c' p)) (tail c'), n, e))
        (ReadFromFile S0 (Decoded (encodeEntries [''a'', ''b''] c_ba)) [''b'', ''a''] c_new)
      = Some (Some ''b'', Some ''a'', 0, None)"
    by (simp add: ReadFromFile_def encodeEntries_def List.map_filter_def exported_def c_ba_def
        c_new_def NewCache_def Let_def NoMaxSize_def NoMaxMemoryUsage_def DefaultMaxSize_def
        len_def)
  moreover have "dom (entries c_ba) = {''a'', ''b''}" by (auto simp: c_ba_def)
  ultimately show ?thesis
    by (simp add: c_ba_built SaveToFile_def)
       (simp add: c_ba_def c_new_def NewCache_def empty_cache_def DefaultMaxSize_def)
qed

text \<open>
  The bounds matter as well. \<open>c_ab\<close> after \<^verbatim>\<open>WithMaxSize(1)\<close> holds two
  entries; its snapshot, read into an empty cache with the same bound, loses \<open>a\<close>
  to the eviction loop.
\<close>

lemma round_trip_over_bound_loses_keys:
  "cache_inv (WithMaxSize 1 c_ab) [0, 1]
   \<and> sorted_wrt (<) (map (\<lambda>p. RelevantTimestamp (store (WithMaxSize 1 c_ab) p)) [0, 1])
   \<and> dom (entries (WithMaxSize 1 c_ab)) = {''a'', ''b''}
   \<and> empty_cache (WithMaxSize 1 c_new)
   \<and> maxSize (WithMaxSize 1 c_new) = maxSize (WithMaxSize 1 c_ab)
   \<and> SaveToFile None [''a'', ''b''] (WithMaxSize 1 c_ab)
       = Inr (encodeEntries [''a'', ''b''] (WithMaxSize 1 c_ab))
   \<and> map_option (\<lambda>(c', n, e). (dom (entries c'), n, e))
        (ReadFromFile S0 (Decoded (encodeEntries [''a'', ''b''] (WithMaxSize 1 c_ab))) [''a'', ''b'']
           (WithMaxSize 1 c_new))
      = Some ({''b''}, 1, None)"
proof -
  have "cache_inv (WithMaxSize 1 c_ab) [0, 1]" using c_ab_inv by (simp add: WithMaxSize_def)
  moreover have "map_option (\<lambda>(c', n, e). (dom (entries c'), n, e))
        (ReadFromFile S0 (Decoded (encodeEntries [''a'', ''b''] (WithMaxSize 1 c_ab))) [''a'', ''b'']
           (WithMaxSize 1 c_new))
      = Some ({''b''}, 1, None)"
    by (simp add: load_defs c_ab_def c_new_def NewCache_def WithMaxSize_def
        evictWhileOverSize.simps evict_def removeExistingEntryReferences_def)
  moreover have "dom (entries (WithMaxSize 1 c_ab)) = {''a'', ''b''}"
    by (auto simp: WithMaxSize_def c_ab_def)
  ultimately show ?thesis
    by (simp add: SaveToFile_def)
       (simp add: WithMaxSize_def c_ab_def c_new_def NewCache_def empty_cache_def)
qed

subsection \<open>C2: eviction on load\<close>

text \<open>
  C2. Loading a snapshot of \<open>n\<close> entries into an empty cache whose \<^verbatim>\<open>maxSize\<close>
  is \<open>m < n\<close> and which has no memory bound returns, reports \<open>n - m\<close> evictions
  (also on the evicted-keys counter) and leaves \<open>m\<close> entries; no evicted entry is
  newer than an entry that stays, and the entries that stay have the values of the
  snapshot. The snapshot is one that \<^verbatim>\<open>SaveToFile\<close> writes: every element
  carries its own map key.
\<close>

theorem load_evicts_oldest:
  assumes "empty_cache c" and "wf_snapshot ps" and "distinct order"
    and "set order = fst ` set ps"
    and "maxMemoryUsage c = NoMaxMemoryUsage"
    and "0 < maxSize c" and "maxSize c < int (length ps)"
  shows "\<exists>c'. ReadFromFile S (Decoded ps) order c =
                Some (c', int (length ps) - maxSize c, None)
           \<and> len c' = maxSize c
           \<and> EvictedKeys (stats c') = EvictedKeys (stats c) + (length ps - nat (maxSize c))
           \<and> dom (entries c') \<subseteq> fst ` set ps
           \<and> (\<forall>(k, e) \<in> set ps. \<forall>(k', e') \<in> set ps.
                 k \<notin> dom (entries c') \<and> k' \<in> dom (entries c')
                 \<longrightarrow> RelevantTimestamp e \<le> RelevantTimestamp e')
           \<and> (\<forall>(k, e) \<in> set ps. k \<in> dom (entries c')
                 \<longrightarrow> (\<exists>p. entries c' k = Some p \<and> Value (store c' p) = Value e))"
proof -
  let ?c1 = "Decode ps c" and ?c2 = "relinked S ps order c"
  let ?es = "sortedSlice order (Decode ps c)"
  let ?ts = "\<lambda>p. RelevantTimestamp (store ?c1 p)"
  note ro = empty_ranges_over [OF assms(1,3,4)]
  note ri = relinked_inv(1) [OF assms(1,2) ro, where S = S] relinked_inv(2) [OF assms(1,2) ro]
    relinked_inv(3) [OF assms(1,2) ro]
  note ix = Decode_index_empty [OF assms(1,2)]
  from assms(6) have nn: "0 \<le> maxSize c" by simp
  from ReadFromFile_enforce [OF ri(1) nn] assms(5,6) obtain c' k where
    r: "ReadFromFile S (Decoded ps) order c = Some (c', int k, None)"
    and inv': "cache_inv c' (drop k ?es)"
    and pay: "same_payload ?c2 c'"
    and st: "EvictedKeys (stats c') = EvictedKeys (stats c) + k"
    and k: "k = length ?es - nat (maxSize c)"
    by (auto simp: NoMaxSize_def)
  have k': "k = length ps - nat (maxSize c)" using k ri(3) by simp
  have ik: "int k = int (length ps) - maxSize c" using k' assms(6,7) by simp
  have pay1: "same_payload ?c1 c'"
    using same_payload_relinked pay by (rule same_payload_trans)
  have ix': "\<And>k0 p. entries c' k0 = Some p \<longleftrightarrow> p \<in> set (drop k ?es) \<and> Key (store ?c1 p) = k0"
    using inv' pay1 by (simp add: cache_inv_def indexed_def same_payload_def)
  have sub: "set (drop k ?es) \<subseteq> {fresh c ..< fresh c + length ps}"
    using ri(2) set_drop_subset [of k ?es] by simp
  have "len c' = int (length (drop k ?es))" using inv' by (rule cache_inv_len)
  then have len: "len c' = maxSize c" using k' ri(3) assms(6,7) by simp
  have dom: "dom (entries c') \<subseteq> fst ` set ps"
  proof
    fix k0 assume "k0 \<in> dom (entries c')"
    then obtain p where "entries c' k0 = Some p" by auto
    with ix' sub have "entries ?c1 k0 = Some p" by (auto simp: ix)
    then have "k0 \<in> dom (entries ?c1)" by auto
    then show "k0 \<in> fst ` set ps" using assms(1) by (simp add: Decode_dom empty_cache_def)
  qed
  have look: "\<And>k0 e0. (k0, e0) \<in> set ps \<Longrightarrow>
      \<exists>p. entries ?c1 k0 = Some p \<and> p \<in> set ?es \<and> store ?c1 p = exported e0
          \<and> (k0 \<in> dom (entries c') \<longleftrightarrow> p \<in> set (drop k ?es))
          \<and> (k0 \<in> dom (entries c') \<longrightarrow> entries c' k0 = Some p)"
  proof -
    fix k0 e0 assume m: "(k0, e0) \<in> set ps"
    from assms(2) have "distinct (map fst ps)" by (simp add: wf_snapshot_def)
    from Decode_lookup [OF this m, of c] obtain p where
      p: "entries ?c1 k0 = Some p" "fresh c \<le> p" "p < fresh c + length ps"
         "store ?c1 p = exported e0"
      by blast
    then have "p \<in> set ?es" by (simp add: ri(2))
    moreover have "Key (store ?c1 p) = k0" using p(1) by (simp add: ix)
    then have "\<And>y. entries c' k0 = Some y \<Longrightarrow> y = p"
    proof -
      fix y assume "entries c' k0 = Some y"
      with ix' have "y \<in> set (drop k ?es)" "Key (store ?c1 y) = k0" by auto
      with sub have "entries ?c1 k0 = Some y" by (auto simp: ix)
      with p(1) show "y = p" by simp
    qed
    then have "k0 \<in> dom (entries c') \<longleftrightarrow> p \<in> set (drop k ?es)"
      "k0 \<in> dom (entries c') \<longrightarrow> entries c' k0 = Some p"
      using ix' \<open>Key (store ?c1 p) = k0\<close> by auto
    then have "k0 \<in> dom (entries c') \<longleftrightarrow> p \<in> set (drop k ?es)"
      by simp
    moreover have "k0 \<in> dom (entries c') \<longrightarrow> entries c' k0 = Some p"
      by fact
    ultimately show "\<exists>p. entries ?c1 k0 = Some p \<and> p \<in> set ?es \<and> store ?c1 p = exported e0
          \<and> (k0 \<in> dom (entries c') \<longleftrightarrow> p \<in> set (drop k ?es))
          \<and> (k0 \<in> dom (entries c') \<longrightarrow> entries c' k0 = Some p)"
      using p by blast
  qed
  have ord: "RelevantTimestamp e0 \<le> RelevantTimestamp e1"
    if m0: "(k0, e0) \<in> set ps" and m1: "(k1, e1) \<in> set ps"
      and out: "k0 \<notin> dom (entries c')" and inn: "k1 \<in> dom (entries c')"
    for k0 e0 k1 e1
  proof -
    from look [OF m0] out obtain p0 where
      p0: "p0 \<in> set ?es" "store ?c1 p0 = exported e0" "p0 \<notin> set (drop k ?es)" by blast
    from look [OF m1] inn obtain p1 where
      p1: "store ?c1 p1 = exported e1" "p1 \<in> set (drop k ?es)" by blast
    from p0(1,3) have "p0 \<in> set (take k ?es)"
      by (metis Un_iff append_take_drop_id set_append)
    from sorted_take_drop [OF sorted_sortedSlice this p1(2)]
    show "RelevantTimestamp e0 \<le> RelevantTimestamp e1"
      by (simp add: p0(2) p1(1) exported_def)
  qed
  have vals: "\<exists>p. entries c' k0 = Some p \<and> Value (store c' p) = Value e0"
    if m0: "(k0, e0) \<in> set ps" and inn: "k0 \<in> dom (entries c')" for k0 e0
  proof -
    from look [OF m0] inn obtain p where
      "entries c' k0 = Some p" "store ?c1 p = exported e0" by blast
    moreover have "Value (store c' p) = Value (store ?c1 p)"
      using pay1 by (simp add: same_payload_def)
    ultimately show "\<exists>p. entries c' k0 = Some p \<and> Value (store c' p) = Value e0"
      by (auto simp: exported_def)
  qed
  have "\<forall>(k, e) \<in> set ps. \<forall>(k', e') \<in> set ps.
                 k \<notin> dom (entries c') \<and> k' \<in> dom (entries c')
                 \<longrightarrow> RelevantTimestamp e \<le> RelevantTimestamp e'"
    using ord by blast
  moreover have "\<forall>(k, e) \<in> set ps. k \<in> dom (entries c')
                 \<longrightarrow> (\<exists>p. entries c' k = Some p \<and> Value (store c' p) = Value e)"
    using vals by blast
  ultimately show ?thesis
    using r [unfolded ik] len st [unfolded k'] dom by (intro exI [of _ c']) simp
qed

text \<open>The ten entries of the test, loaded into a cache with \<^verbatim>\<open>maxSize = 7\<close>.\<close>

theorem load_evicts_oldest_witness:
  "empty_cache c_max7 \<and> wf_snapshot snap10 \<and> distinct order10
   \<and> set order10 = fst ` set snap10 \<and> maxMemoryUsage c_max7 = NoMaxMemoryUsage
   \<and> maxSize c_max7 = 7 \<and> length snap10 = 10
   \<and> (\<exists>c'. ReadFromFile S0 (Decoded snap10) order10 c_max7 = Some (c', 3, None)
          \<and> len c' = 7 \<and> EvictedKeys (stats c') = 3 \<and> dom (entries c') \<subseteq> fst ` set snap10)"
proof -
  have h1: "empty_cache c_max7"
    by (simp add: empty_cache_def c_max7_def c_new_def NewCache_def WithMaxSize_def)
  have h2: "wf_snapshot snap10"
    by (simp add: wf_snapshot_def snap10_def snap_entry_def)
  have h3: "distinct order10" by (simp add: order10_def)
  have h4: "set order10 = fst ` set snap10"
    by (auto simp: order10_def snap10_def snap_entry_def)
  have h5: "maxMemoryUsage c_max7 = NoMaxMemoryUsage"
    by (simp add: c_max7_def c_new_def NewCache_def WithMaxSize_def NoMaxMemoryUsage_def)
  have m: "maxSize c_max7 = 7" and s: "stats c_max7 = \<lparr>EvictedKeys = 0, Hits = 0, Misses = 0\<rparr>"
    by (simp_all add: c_max7_def c_new_def NewCache_def WithMaxSize_def)
  have l: "length snap10 = 10" by (simp add: snap10_def)
  have h6: "0 < maxSize c_max7" and h7: "maxSize c_max7 < int (length snap10)"
    by (simp_all add: m l)
  from load_evicts_oldest [OF h1 h2 h3 h4 h5 h6 h7, of S0]
  have "\<exists>c'. ReadFromFile S0 (Decoded snap10) order10 c_max7 = Some (c', 3, None)
          \<and> len c' = 7 \<and> EvictedKeys (stats c') = 3 \<and> dom (entries c') \<subseteq> fst ` set snap10"
    by (simp add: m l s) blast
  with h1 h2 h3 h4 h5 m l show ?thesis by simp
qed

subsection \<open>C3: loading into a cache that is not empty\<close>

text \<open>
  C3 says that after the decoding step of \<^verbatim>\<open>ReadFromFile\<close> the map holds exactly
  the keys and values of the snapshot, nothing of the prior state remaining. At this
  input it does not: the cache holds \<open>a\<close>, the snapshot only \<open>b\<close>, and after
  \<^verbatim>\<open>Decode\<close> (and after the whole \<^verbatim>\<open>ReadFromFile\<close>) the map holds both,
  \<open>a\<close> still bound to the entry it had.
\<close>

theorem load_keeps_prior_entries:
  "entries c_a ''a'' = Some 0 \<and> fst ` set [snap_entry ''b'' 5] = {''b''}
   \<and> entries (Decode [snap_entry ''b'' 5] c_a) ''a'' = Some 0
   \<and> entries (Decode [snap_entry ''b'' 5] c_a) ''b'' = Some 1
   \<and> dom (entries (Decode [snap_entry ''b'' 5] c_a)) = {''a'', ''b''}
   \<and> map_option (\<lambda>(c', n, e). (dom (entries c'), entries c' ''a'', n, e))
        (ReadFromFile S0 (Decoded [snap_entry ''b'' 5]) [''a'', ''b''] c_a)
      = Some ({''a'', ''b''}, Some 0, 0, None)"
  by (auto simp: load_defs c_a_def)

text \<open>
  The relinking loop takes every entry of the map to be newly decoded, with
  \<^verbatim>\<open>nil\<close> links. An entry that was in the cache before keeps its links: loading a
  snapshot that holds only \<open>c\<close> into \<open>c_ba\<close> makes \<open>a\<close> the tail while its
  \<^verbatim>\<open>previous\<close> still points to \<open>b\<close>.
\<close>

lemma load_on_used_cache_breaks_list:
  "map_option (\<lambda>(c', n, e). (tail c', map_option (\<lambda>p. previous (store c' p)) (tail c'), n, e))
        (ReadFromFile S0 (Decoded [snap_entry ''c'' 3]) [''a'', ''b'', ''c''] c_ba)
      = Some (Some 0, Some (Some 1), 0, None)"
  by (auto simp: load_defs c_ba_def)

subsection \<open>C4: the size bound\<close>




text \<open>
  Well-formedness matters as well, and a load into a cache that holds keys the file
  lacks destroys it (C3). \<open>c_ba\<close> with \<^verbatim>\<open>maxSize = 2\<close> is well formed and
  within its bound; it reads a file that holds only \<open>c\<close>, which evicts one entry
  and leaves two, and after \<^verbatim>\<open>Set("d")\<close> and \<^verbatim>\<open>Set("e")\<close> it holds three
  entries: the tail pointer has left the map, so \<^verbatim>\<open>evict\<close> removes nothing.
\<close>

lemma load_on_used_cache_then_set_exceeds_bound:
  "bounded_inv (WithMaxSize 2 c_ba)
   \<and> Option.bind (ReadFromFile S0 (Decoded [snap_entry ''c'' 3]) [''a'', ''b'', ''c'']
                     (WithMaxSize 2 c_ba))
       (\<lambda>(c1, n, e). Option.bind (Set S0 4 ''d'' ''u'' c1)
          (\<lambda>c2. map_option (\<lambda>c3. (n, e, len c1, len c2, len c3, maxSize c3))
                 (Set S0 5 ''e'' ''w'' c2)))
     = Some (1, None, 2, 2, 3, 2)"
  using c_ba2_bounded
  by (simp add: load_defs write_defs c_ba_def WithMaxSize_def
      evictWhileOverSize.simps evict_def removeExistingEntryReferences_def)

subsection \<open>C5: the memory account\<close>

text \<open>
  C5 says that on a memory-bounded cache \<^verbatim>\<open>memoryUsage\<close> is the sum of the sizes of
  the entries in the map after every operation. At this input it is not: \<open>c_t\<close> is
  memory-bounded, holds one entry of 34 bytes and is accounted for; saved and read back
  into itself it holds one entry of 34 bytes and \<^verbatim>\<open>memoryUsage\<close> is 68, because
  the relinking loop adds to the old total. Every other operation keeps the account
  (lemmas \<open>memory_accounting_preserved\<close> and \<open>load_into_empty_accounted\<close>).
\<close>

theorem reload_double_counts_memory:
  "accounted S0 c_t
   \<and> SaveToFile None [''t''] c_t = Inr (encodeEntries [''t''] c_t)
   \<and> map_option (\<lambda>(c', n, e). (dom (entries c'), entryBytes S0 c', memoryUsage c',
                                 accounted S0 c', n, e))
        (ReadFromFile S0 (Decoded (encodeEntries [''t''] c_t)) [''t''] c_t)
      = Some ({''t''}, 34, 68, False, 0, None)"
  using c_t_accounted
  by (auto simp: load_defs c_t_def SaveToFile_def entryBytes_def accounted_def)

subsection \<open>C6: negative TTLs\<close>

text \<open>
  C6, as amended. \<^verbatim>\<open>SetWithTTL\<close> with a negative TTL other than
  \<^verbatim>\<open>NoExpiration\<close> returns the cache unchanged and reports nothing when the key
  is absent: the guard sits in the branch that would create the entry.
\<close>

theorem negative_ttl_absent_noop:
  assumes "entries c key = None" and "ttl \<noteq> NoExpiration" and "ttl < 0"
  shows "SetWithTTL S t0 t1 key val ttl c = Some c"
  using assms by (simp add: SetWithTTL_def get_def)

theorem negative_ttl_absent_noop_witness:
  "entries c_new ''a'' = None \<and> (- 5 :: int) \<noteq> NoExpiration \<and> (- 5 :: int) < 0
   \<and> SetWithTTL S0 5 5 ''a'' ''x'' (- 5) c_new = Some c_new"
  using negative_ttl_absent_noop [of c_new "''a''" "- 5" S0 5 5 "''x''"]
  by (simp add: c_new_def NewCache_def NoExpiration_def)

text \<open>
  With the key present the guard is not reached: \<^verbatim>\<open>SetWithTTL("a","w",-5ns)\<close> at
  the instant 100 on \<open>c_a\<close> replaces the value and sets an expiration in the past.
\<close>

theorem negative_ttl_present_counterexample:
  "entries c_a ''a'' = Some 0 \<and> (- 5 :: int) \<noteq> NoExpiration \<and> (- 5 :: int) < 0
   \<and> SetWithTTL S0 100 100 ''a'' ''w'' (- 5) c_a \<noteq> Some c_a
   \<and> Value (store c_a 0) = ''x'' \<and> Expiration (store c_a 0) = - 1
   \<and> map_option (\<lambda>c. Value (store c 0)) (SetWithTTL S0 100 100 ''a'' ''w'' (- 5) c_a) = Some ''w''
   \<and> map_option (\<lambda>c. Expiration (store c 0)) (SetWithTTL S0 100 100 ''a'' ''w'' (- 5) c_a) = Some 95"
proof -
  have v: "map_option (\<lambda>c. Value (store c 0)) (SetWithTTL S0 100 100 ''a'' ''w'' (- 5) c_a) = Some ''w''"
    and e: "map_option (\<lambda>c. Expiration (store c 0)) (SetWithTTL S0 100 100 ''a'' ''w'' (- 5) c_a) = Some 95"
    by (simp_all add: write_defs c_a_def moveExistingEntryToHead_def UnixNano_def)
  have old: "Value (store c_a 0) = ''x''" "Expiration (store c_a 0) = - 1"
    by (simp_all add: c_a_def)
  have "SetWithTTL S0 100 100 ''a'' ''w'' (- 5) c_a \<noteq> Some c_a"
  proof
    assume "SetWithTTL S0 100 100 ''a'' ''w'' (- 5) c_a = Some c_a"
    with v old show False by simp
  qed
  with v e old show ?thesis
    by (simp add: c_a_def NoExpiration_def)
qed

subsection \<open>C7: reading an expired entry\<close>

text \<open>
  C7. A \<^verbatim>\<open>Get\<close> of a key whose entry is present but expired reports "not found",
  counts a hit and no miss, removes the key from the map, subtracts the entry's size
  when the cache is memory-bounded and clears the entry's links; on a well-formed cache
  with recency list \<open>xs\<close> the entry was on the list and the cache is again well
  formed, with the list \<open>xs\<close> less that entry.
\<close>

theorem expired_get_deletes:
  assumes "entries c key = Some p" and "Expired t0 (store c p)"
  shows "snd (Get S t0 t1 key c) = None
       \<and> Hits (stats (fst (Get S t0 t1 key c))) = Hits (stats c) + 1
       \<and> Misses (stats (fst (Get S t0 t1 key c))) = Misses (stats c)
       \<and> entries (fst (Get S t0 t1 key c)) = (entries c)(key := None)
       \<and> memoryUsage (fst (Get S t0 t1 key c)) =
           (if maxMemoryUsage c \<noteq> NoMaxMemoryUsage
            then memoryUsage c - SizeInBytes S (store c p) else memoryUsage c)
       \<and> previous (store (fst (Get S t0 t1 key c)) p) = None
       \<and> nxt (store (fst (Get S t0 t1 key c)) p) = None
       \<and> (\<forall>xs. cache_inv c xs \<longrightarrow>
             p \<in> set xs \<and> p \<notin> set (remove1 p xs)
             \<and> cache_inv (fst (Get S t0 t1 key c)) (remove1 p xs))"
proof -
  let ?c1 = "c\<lparr>stats := (stats c)\<lparr>Hits := Hits (stats c) + 1\<rparr>\<rparr>"
  have g: "Get S t0 t1 key c = (fst (delete S key ?c1), None)"
    using assms by (rule Get_expired)
  have e1: "entries ?c1 key = Some p" using assms(1) by simp
  have list: "p \<in> set xs \<and> p \<notin> set (remove1 p xs)
      \<and> cache_inv (fst (Get S t0 t1 key c)) (remove1 p xs)" if inv: "cache_inv c xs" for xs
  proof -
    have inv1: "cache_inv ?c1 xs" using inv by simp
    have "cache_inv (fst (delete S key ?c1)) (remove1 p xs)"
      by (rule delete_inv [OF inv1 e1])
    moreover have "p \<in> set xs" "distinct xs"
      using inv assms(1) by (auto simp: cache_inv_def dll_def dest: indexed_mem)
    ultimately show ?thesis by (simp add: g)
  qed
  have "snd (Get S t0 t1 key c) = None
       \<and> Hits (stats (fst (Get S t0 t1 key c))) = Hits (stats c) + 1
       \<and> Misses (stats (fst (Get S t0 t1 key c))) = Misses (stats c)
       \<and> entries (fst (Get S t0 t1 key c)) = (entries c)(key := None)
       \<and> memoryUsage (fst (Get S t0 t1 key c)) =
           (if maxMemoryUsage c \<noteq> NoMaxMemoryUsage
            then memoryUsage c - SizeInBytes S (store c p) else memoryUsage c)
       \<and> previous (store (fst (Get S t0 t1 key c)) p) = None
       \<and> nxt (store (fst (Get S t0 t1 key c)) p) = None"
    using assms(1) by (simp add: g delete_hit remove_refs_cleared)
  with list show ?thesis by blast
qed

theorem expired_get_deletes_witness:
  "entries c_t ''t'' = Some 0 \<and> Expired 200 (store c_t 0) \<and> cache_inv c_t [0]
   \<and> snd (Get S0 200 200 ''t'' c_t) = None
   \<and> Hits (stats (fst (Get S0 200 200 ''t'' c_t))) = 1
   \<and> Misses (stats (fst (Get S0 200 200 ''t'' c_t))) = 0
   \<and> entries (fst (Get S0 200 200 ''t'' c_t)) = Map.empty
   \<and> cache_inv (fst (Get S0 200 200 ''t'' c_t)) []
   \<and> memoryUsage (fst (Get S0 200 200 ''t'' c_t)) = 0"
proof -
  have inv: "cache_inv c_t [0]"
    by (auto simp: cache_inv_def dll_def indexed_def c_t_def)
  have e: "entries c_t ''t'' = Some 0" by (simp add: c_t_def)
  have x: "Expired 200 (store c_t 0)" by (simp add: c_t_def Expired_def NoExpiration_def)
  note r = expired_get_deletes [OF e x, where S = S0 and ?t1.0 = 200]
  from r inv have l: "cache_inv (fst (Get S0 200 200 ''t'' c_t)) (remove1 0 [0])"
    by blast
  have m: "memoryUsage c_t - SizeInBytes S0 (store c_t 0) = 0"
    "maxMemoryUsage c_t \<noteq> NoMaxMemoryUsage" "Hits (stats c_t) = 0"
    "Misses (stats c_t) = 0" "(entries c_t)(''t'' := None) = Map.empty"
    by (simp_all add: c_t_def S0_def SizeInBytes_def NoMaxMemoryUsage_def)
  from r l show ?thesis
    by (simp add: inv e x m)
qed

subsection \<open>C8: the TTL query\<close>

text \<open>
  C8, as amended. \<^verbatim>\<open>TTL\<close> reports \<^verbatim>\<open>ErrKeyDoesNotExist\<close> for an absent key,
  \<^verbatim>\<open>ErrKeyHasNoExpiration\<close> for the sentinel, \<^verbatim>\<open>ErrKeyDoesNotExist\<close> when
  expiration minus now is negative, and otherwise the remaining time, which is
  non-negative (capped at the largest \<^verbatim>\<open>Duration\<close>), with no error.
\<close>

theorem ttl_result:
  "TTL now key c =
     (case entries c key of
        None \<Rightarrow> Inl ErrKeyDoesNotExist
      | Some p \<Rightarrow>
          if Expiration (store c p) = NoExpiration then Inl ErrKeyHasNoExpiration
          else if Expiration (store c p) - now < 0 then Inl ErrKeyDoesNotExist
          else Inr (min maxDuration (Expiration (store c p) - now)))
   \<and> (case TTL now key c of Inl e \<Rightarrow> True | Inr d \<Rightarrow> 0 \<le> d)"
  by (auto simp: TTL_def get_def Until_def Let_def minDuration_def maxDuration_def split: option.splits)

text \<open>
  At the very instant of expiration the remaining time is zero, not positive, and it is
  returned without an error.
\<close>

theorem ttl_zero_counterexample:
  "entries c_t ''t'' = Some 0 \<and> Expiration (store c_t 0) \<noteq> NoExpiration
   \<and> \<not> Expiration (store c_t 0) - 100 < 0
   \<and> TTL 100 ''t'' c_t = Inr 0"
  by (simp add: c_t_def TTL_def get_def Until_def NoExpiration_def minDuration_def maxDuration_def)

subsection \<open>C9: removing an entry that is not an endpoint\<close>

text \<open>
  C9. Removing an entry that is neither \<^verbatim>\<open>cache.head\<close> nor \<^verbatim>\<open>cache.tail\<close>, by
  \<^verbatim>\<open>removeExistingEntryReferences\<close> or by \<^verbatim>\<open>delete\<close>, leaves both endpoint
  pointers as they were; read backwards, an endpoint pointer is rebound only when the
  removed entry was an endpoint.
\<close>

theorem middle_removal_keeps_endpoints:
  assumes "head c \<noteq> Some e" and "tail c \<noteq> Some e"
  shows "head (removeExistingEntryReferences e c) = head c
       \<and> tail (removeExistingEntryReferences e c) = tail c
       \<and> (entries c key = Some e \<longrightarrow>
            head (fst (delete S key c)) = head c \<and> tail (fst (delete S key c)) = tail c)"
  using assms by (simp add: remove_refs_ends delete_def Let_def)

theorem middle_removal_keeps_endpoints_witness:
  "head c_abc \<noteq> Some 1 \<and> tail c_abc \<noteq> Some 1 \<and> entries c_abc ''b'' = Some 1
   \<and> head (removeExistingEntryReferences 1 c_abc) = Some 2
   \<and> tail (removeExistingEntryReferences 1 c_abc) = Some 0
   \<and> head (fst (delete S0 ''b'' c_abc)) = Some 2
   \<and> tail (fst (delete S0 ''b'' c_abc)) = Some 0"
  using middle_removal_keeps_endpoints [of c_abc 1 "''b''" S0]
  by (simp add: c_abc_def)

subsection \<open>C10: evicting from an empty cache\<close>

text \<open>
  C10. \<^verbatim>\<open>evict\<close> on a cache without entries (\<^verbatim>\<open>cache.tail == nil\<close>, or an empty
  map) returns the state it was given: nothing is unlinked and the evicted-keys counter
  is not incremented.
\<close>

theorem evict_empty_unchanged:
  assumes "tail c = None \<or> entries c = Map.empty"
  shows "evict S c = c \<and> EvictedKeys (stats (evict S c)) = EvictedKeys (stats c)"
  using assms by (auto simp: evict_def len_def)

theorem evict_empty_unchanged_witness:
  "(tail c_new = None \<or> entries c_new = Map.empty) \<and> evict S0 c_new = c_new
   \<and> EvictedKeys (stats (evict S0 c_new)) = 0"
  using evict_empty_unchanged [of c_new S0]
  by (simp add: c_new_def NewCache_def)

end
